theory Spec2Isabelle
  imports Main "HOL-Library.Word" "HOL-Library.Multiset"
begin

section \<open>Data model of the master server (MasterServer.cc)\<close>

type_synonym u8 = "8 word"
type_synonym u32 = "32 word"
type_synonym u64 = "64 word"

text \<open>The exceptions thrown by the code. A failed \<^verbatim>\<open>assert\<close> is the error
  \<open>AssertionFailed\<close>; calling a method of a \<^verbatim>\<open>Table\<close> through a pointer to no live table
  (undefined behaviour in C++) is the error \<open>InvalidTablePointer\<close>.\<close>

datatype error =
    TableDoesntExist
  | ObjectDoesntExist
  | ObjectExists
  | WrongVersion
  | SegmentRecoveryFailed
  | UnimplementedRequestError
  | AssertionFailed
  | InvalidTablePointer

text \<open>\<^verbatim>\<open>struct RejectRules\<close>: the flags are integer fields tested for being nonzero
  (\<^verbatim>\<open>rejectRules.exists = 1\<close> in \<^verbatim>\<open>create\<close>).\<close>

record RejectRules =
  givenVersion :: u64
  doesntExist :: u8
  exists :: u8
  versionLeGiven :: u8
  versionNeGiven :: u8

text \<open>\<^verbatim>\<open>MasterServer::rejectOperation\<close>. The constant \<^verbatim>\<open>VERSION_NONEXISTENT\<close> is declared
  in a header, not in MasterServer.cc, so its value is the parameter \<open>nonexistent\<close>.
  Returning normally is \<open>Inr ()\<close>, a throw is \<open>Inl\<close>.\<close>

definition rejectOperation :: "u64 \<Rightarrow> RejectRules \<Rightarrow> u64 \<Rightarrow> error + unit" where
  "rejectOperation nonexistent rejectRules version =
     (if version = nonexistent then
        (if doesntExist rejectRules \<noteq> 0 then Inl ObjectDoesntExist else Inr ())
      else if exists rejectRules \<noteq> 0 then Inl ObjectExists
      else if versionLeGiven rejectRules \<noteq> 0 \<and> version \<le> givenVersion rejectRules
        then Inl WrongVersion
      else if versionNeGiven rejectRules \<noteq> 0 \<and> version \<noteq> givenVersion rejectRules
        then Inl WrongVersion
      else Inr ())"


subsection \<open>Log records\<close>

text \<open>\<^verbatim>\<open>struct Object\<close> (log entry type \<^verbatim>\<open>LOG_ENTRY_TYPE_OBJ\<close>); the field \<^verbatim>\<open>id\<close> is
  \<open>id_obj\<close> here. \<^verbatim>\<open>struct ObjectTombstone\<close> (log entry type \<^verbatim>\<open>LOG_ENTRY_TYPE_OBJTOMB\<close>).\<close>

record Object =
  table :: u64
  id_obj :: u64
  version :: u64
  checksum :: u64
  data_len :: u64
  data :: "u8 list"

record ObjectTombstone =
  segmentId :: u64
  tableId :: u64
  objectId :: u64
  objectVersion :: u64

text \<open>Modelled from the spec: the constructor \<^verbatim>\<open>ObjectTombstone(segmentId, srcObj)\<close>, whose
  definition is in a header, not in MasterServer.cc. The spec writes the tombstone of an
  overwritten object \<open>prev\<close> as \<open>tombstone{prev.segmentId, prev}\<close> with the fields
  \<open>tableId\<close>, \<open>objectId\<close>, \<open>objectVersion\<close>, \<open>segmentId\<close>.\<close>

definition ObjectTombstone_ctor :: "u64 \<Rightarrow> Object \<Rightarrow> ObjectTombstone" where
  "ObjectTombstone_ctor seg srcObj =
     \<lparr>segmentId = seg, tableId = table srcObj, objectId = id_obj srcObj,
      objectVersion = version srcObj\<rparr>"

text \<open>The typed entries a segment iterator yields. Entries of any other type (segment header
  and footer) are skipped by the replay loop.\<close>

datatype LogEntry =
    LOG_ENTRY_TYPE_OBJ Object
  | LOG_ENTRY_TYPE_OBJTOMB ObjectTombstone
  | LOG_ENTRY_TYPE_OTHER

type_synonym key = "u64 \<times> u64"

text \<open>A \<^verbatim>\<open>const Object*\<close> into the log. Log entries are immutable once appended, so the
  pointer is modelled as the address together with the record stored at that address;
  \<^verbatim>\<open>o->version\<close> is \<open>version (pointee o)\<close>.\<close>

record ObjectRef =
  addr :: nat
  pointee :: Object

subsection \<open>The log\<close>

text \<open>Modelled from the spec: the class \<^verbatim>\<open>Log\<close>, which MasterServer.cc only calls.
  \<open>append\<close> writes into the current open segment and rotates to a new segment, with the next
  segment id, when the entry does not fit; \<open>free\<close> marks an entry dead; \<open>getSegmentId\<close>
  gives the id of the segment holding a reference. The address of an appended entry is its
  position in \<open>appended\<close>. Entry sizes follow the record layouts of the spec.\<close>

record Log =
  appended :: "LogEntry list"
  freed :: "nat list"
  segmentOf :: "nat \<Rightarrow> u64"
  head :: u64
  headBytes :: nat
  segmentBytes :: nat

definition entrySize :: "LogEntry \<Rightarrow> nat" where
  "entrySize e =
     (case e of
        LOG_ENTRY_TYPE_OBJ obj \<Rightarrow> 36 + unat (data_len obj)
      | LOG_ENTRY_TYPE_OBJTOMB t \<Rightarrow> 32
      | LOG_ENTRY_TYPE_OTHER \<Rightarrow> 0)"

definition Log_append :: "LogEntry \<Rightarrow> Log \<Rightarrow> nat \<times> Log" where
  "Log_append e l =
     (let rotate = (segmentBytes l < headBytes l + entrySize e);
          seg = (if rotate then head l + 1 else head l);
          used = (if rotate then 0 else headBytes l) + entrySize e;
          a = length (appended l)
      in (a, l\<lparr>appended := appended l @ [e], segmentOf := (segmentOf l)(a := seg),
               head := seg, headBytes := used\<rparr>))"

definition Log_free :: "nat \<Rightarrow> Log \<Rightarrow> Log" where
  "Log_free a l = l\<lparr>freed := freed l @ [a]\<rparr>"

definition getSegmentId :: "Log \<Rightarrow> nat \<Rightarrow> u64" where
  "getSegmentId l a = segmentOf l a"

subsection \<open>Tablets and tables\<close>

text \<open>\<^verbatim>\<open>ProtoBuf::Tablets::Tablet\<close>, with the fields this file reads and writes.
  \<open>user_data\<close> holds the address of the tablet's \<^verbatim>\<open>Table\<close>; 0 is the null pointer.\<close>

record Tablet =
  table_id :: u64
  start_object_id :: u64
  end_object_id :: u64
  user_data :: nat

text \<open>Modelled from the spec: the class \<^verbatim>\<open>Table\<close>, which MasterServer.cc only calls:
  a per-table object with two monotone counters, a key allocator and a version floor.
  A fresh table hands out version 1 first (the spec's create-read scenario).\<close>

record Table =
  tableId_T :: u64
  nextKey :: u64
  nextVersion :: u64

definition Table_ctor :: "u64 \<Rightarrow> Table" where
  "Table_ctor tid = \<lparr>tableId_T = tid, nextKey = 0, nextVersion = 1\<rparr>"

text \<open>The calls to the log, the object index and the recovery-tombstone index, in the order
  in which they are made.\<close>

datatype Event =
    LogAppend LogEntry
  | LogFree nat
  | IndexReplace key nat
  | IndexRemove key
  | TombstoneReplace key ObjectTombstone
  | TombstoneRemove key

text \<open>The members of \<^verbatim>\<open>class MasterServer\<close> that the operations use. Tables live on the
  heap \<open>tableHeap\<close>; \<open>tableNext\<close> is the address \<^verbatim>\<open>new Table\<close> returns next. \<open>trace\<close>
  is not a member of the class: it records the calls made to the log and to the indexes, so
  that their order can be stated.\<close>

record MasterServer =
  tablets :: "Tablet list"
  tableHeap :: "nat \<rightharpoonup> Table"
  tableNext :: nat
  objectMap :: "key \<rightharpoonup> ObjectRef"
  log :: Log
  trace :: "Event list"
  bytesWritten :: u64

definition log_append :: "LogEntry \<Rightarrow> MasterServer \<Rightarrow> nat \<times> MasterServer" where
  "log_append e s =
     (let (a, l) = Log_append e (log s)
      in (a, s\<lparr>log := l, trace := trace s @ [LogAppend e]\<rparr>))"

definition log_free :: "nat \<Rightarrow> MasterServer \<Rightarrow> MasterServer" where
  "log_free a s = s\<lparr>log := Log_free a (log s), trace := trace s @ [LogFree a]\<rparr>"

definition objectMap_replace :: "key \<Rightarrow> ObjectRef \<Rightarrow> MasterServer \<Rightarrow> MasterServer" where
  "objectMap_replace k r s =
     s\<lparr>objectMap := (objectMap s)(k \<mapsto> r), trace := trace s @ [IndexReplace k (addr r)]\<rparr>"

definition objectMap_remove :: "key \<Rightarrow> MasterServer \<Rightarrow> MasterServer" where
  "objectMap_remove k s =
     s\<lparr>objectMap := (objectMap s)(k := None), trace := trace s @ [IndexRemove k]\<rparr>"


text \<open>Modelled from the spec: the methods of \<^verbatim>\<open>Table\<close>. \<open>AllocateVersion\<close> hands out the
  next version; \<open>RaiseVersion\<close> raises the version floor so that later versions are at
  least the given one; \<open>AllocateKey\<close> skips the ids currently present in the index. They act
  on the table at address \<open>p\<close> of the heap.\<close>

definition AllocateVersion :: "nat \<Rightarrow> MasterServer \<Rightarrow> error + (u64 \<times> MasterServer)" where
  "AllocateVersion p s =
     (case tableHeap s p of
        None \<Rightarrow> Inl InvalidTablePointer
      | Some t \<Rightarrow>
          Inr (nextVersion t,
               s\<lparr>tableHeap := (tableHeap s)(p \<mapsto> t\<lparr>nextVersion := nextVersion t + 1\<rparr>)\<rparr>))"

definition RaiseVersion :: "nat \<Rightarrow> u64 \<Rightarrow> MasterServer \<Rightarrow> error + MasterServer" where
  "RaiseVersion p minimum s =
     (case tableHeap s p of
        None \<Rightarrow> Inl InvalidTablePointer
      | Some t \<Rightarrow>
          Inr (if nextVersion t < minimum
               then s\<lparr>tableHeap := (tableHeap s)(p \<mapsto> t\<lparr>nextVersion := minimum\<rparr>)\<rparr>
               else s))"

partial_function (option) AllocateKey_loop :: "(key \<rightharpoonup> ObjectRef) \<Rightarrow> u64 \<Rightarrow> u64 \<Rightarrow> u64 option"
where
  "AllocateKey_loop om tid k =
     (if om (tid, k) \<noteq> None then AllocateKey_loop om tid (k + 1) else Some k)"

definition AllocateKey :: "nat \<Rightarrow> MasterServer \<Rightarrow> (error + (u64 \<times> MasterServer)) option" where
  "AllocateKey p s =
     (case tableHeap s p of
        None \<Rightarrow> Some (Inl InvalidTablePointer)
      | Some t \<Rightarrow>
          (case AllocateKey_loop (objectMap s) (tableId_T t) (nextKey t) of
             None \<Rightarrow> None
           | Some k \<Rightarrow> Some (Inr (k, s\<lparr>tableHeap := (tableHeap s)(p \<mapsto> t\<lparr>nextKey := k\<rparr>)\<rparr>))))"

subsection \<open>Client operations\<close>

text \<open>\<^verbatim>\<open>MasterServer::getTable(uint32_t tableId, uint64_t objectId)\<close>: the first tablet that
  covers the object; the result is the \<^verbatim>\<open>Table*\<close> in its \<open>user_data\<close>. The 32-bit
  parameter is compared with the 64-bit \<open>table_id\<close> of the tablet.\<close>

definition getTable :: "u32 \<Rightarrow> u64 \<Rightarrow> MasterServer \<Rightarrow> error + nat" where
  "getTable tid objId s =
     (case find (\<lambda>tablet. table_id tablet = ucast tid \<and>
                           start_object_id tablet \<le> objId \<and>
                           objId \<le> end_object_id tablet) (tablets s) of
        None \<Rightarrow> Inl TableDoesntExist
      | Some tablet \<Rightarrow> Inr (user_data tablet))"

text \<open>\<^verbatim>\<open>MasterServer::storeData\<close>. The 64-bit \<open>tableId\<close> is narrowed to the 32-bit
  parameter of \<open>getTable\<close> and used as it is for the index. The request buffer is a list
  of bytes, and
  \<^verbatim>\<open>data->copy(dataOffset, dataLength, ...)\<close> takes \<open>dataLength\<close> bytes of it from
  \<open>dataOffset\<close> on; when the buffer ends before that, the bytes of the new object that the
  copy does not write are indeterminate, and \<open>data\<close> holds the bytes copied. The result is the outcome (a thrown exception or a normal return), the
  value left in \<^verbatim>\<open>*newVersion\<close> (\<open>None\<close> when it is not written) and the state.\<close>

definition storeData ::
  "u64 \<Rightarrow> u64 \<Rightarrow> u64 \<Rightarrow> RejectRules \<Rightarrow> u8 list \<Rightarrow> u32 \<Rightarrow> u32 \<Rightarrow> MasterServer
     \<Rightarrow> (error + unit) \<times> u64 option \<times> MasterServer" where
  "storeData nonexistent tblId objId rejectRules buf dataOffset dataLength s =
     (case getTable (ucast tblId) objId s of
        Inl e \<Rightarrow> (Inl e, None, s)
      | Inr t \<Rightarrow>
          (let ob = objectMap s (tblId, objId);
               ver = (case ob of Some r \<Rightarrow> version (pointee r) | None \<Rightarrow> nonexistent)
           in case rejectOperation nonexistent rejectRules ver of
                Inl e \<Rightarrow> (Inl e, Some ver, s)
              | Inr u \<Rightarrow>
                 (case (case ob of
                          Some r \<Rightarrow> Inr (version (pointee r) + 1, s)
                        | None \<Rightarrow> AllocateVersion t s) of
                    Inl e \<Rightarrow> (Inl e, None, s)
                  | Inr (newVer, s1) \<Rightarrow>
                     (if \<not> (case ob of None \<Rightarrow> True | Some r \<Rightarrow> version (pointee r) < newVer)
                      then (Inl AssertionFailed, None, s1)
                      else
                        (let newObject =
                               \<lparr>table = tblId, id_obj = objId, version = newVer,
                                checksum = 0x0BE70BE70BE70BE7, data_len = ucast dataLength,
                                data = take (unat dataLength) (drop (unat dataOffset) buf)\<rparr>;
                             s2 = (case ob of
                                     None \<Rightarrow> s1
                                   | Some r \<Rightarrow>
                                       (let s1' = log_free (addr r) s1;
                                            seg = getSegmentId (log s1') (addr r);
                                            tomb = ObjectTombstone_ctor seg (pointee r)
                                        in snd (log_append (LOG_ENTRY_TYPE_OBJTOMB tomb) s1')));
                             (a, s3) = log_append (LOG_ENTRY_TYPE_OBJ newObject) s2;
                             objPtr = \<lparr>addr = a, pointee = newObject\<rparr>;
                             s4 = objectMap_replace (tblId, objId) objPtr s3
                         in (Inr (), Some (version (pointee objPtr)),
                             s4\<lparr>bytesWritten := bytesWritten s4 + ucast dataLength\<rparr>))))))"

text \<open>\<^verbatim>\<open>MasterServer::write\<close> (\<open>write\<close> is a keyword of the theory language, hence the
  suffix) passes the request on to \<open>storeData\<close>.\<close>

definition write_rpc ::
  "u64 \<Rightarrow> u64 \<Rightarrow> u64 \<Rightarrow> RejectRules \<Rightarrow> u8 list \<Rightarrow> u32 \<Rightarrow> u32 \<Rightarrow> MasterServer
     \<Rightarrow> (error + unit) \<times> u64 option \<times> MasterServer" where
  "write_rpc nonexistent tblId objId rejectRules buf dataOffset dataLength s =
     storeData nonexistent tblId objId rejectRules buf dataOffset dataLength s"

text \<open>\<^verbatim>\<open>MasterServer::read\<close>: the table id of the request header is taken 64 bits wide,
  as \<open>storeData\<close> has it (also in \<open>remove\<close> and \<open>create\<close>). The outcome carries the bytes
  appended to the reply;
  \<^verbatim>\<open>respHdr.version\<close> is written before the reject rules are checked.\<close>

definition read ::
  "u64 \<Rightarrow> u64 \<Rightarrow> u64 \<Rightarrow> RejectRules \<Rightarrow> MasterServer
     \<Rightarrow> (error + u8 list) \<times> u64 option \<times> MasterServer" where
  "read nonexistent tblId objId rejectRules s =
     (case getTable (ucast tblId) objId s of
        Inl e \<Rightarrow> (Inl e, None, s)
      | Inr t \<Rightarrow>
          (case objectMap s (tblId, objId) of
             None \<Rightarrow> (Inl ObjectDoesntExist, None, s)
           | Some r \<Rightarrow>
               (case rejectOperation nonexistent rejectRules (version (pointee r)) of
                  Inl e \<Rightarrow> (Inl e, Some (version (pointee r)), s)
                | Inr u \<Rightarrow>
                    (Inr (take (unat (ucast (data_len (pointee r)) :: u32)) (data (pointee r))),
                     Some (version (pointee r)), s))))"

text \<open>\<^verbatim>\<open>MasterServer::remove\<close>. The tombstone is built by
  \<^verbatim>\<open>ObjectTombstone tomb(tomb.segmentId, o)\<close>: the first argument reads the field of the
  object under construction, an indeterminate value, which is the parameter \<open>uninit\<close>.\<close>

definition remove ::
  "u64 \<Rightarrow> u64 \<Rightarrow> u64 \<Rightarrow> u64 \<Rightarrow> RejectRules \<Rightarrow> MasterServer
     \<Rightarrow> (error + unit) \<times> u64 option \<times> MasterServer" where
  "remove nonexistent uninit tblId objId rejectRules s =
     (case getTable (ucast tblId) objId s of
        Inl e \<Rightarrow> (Inl e, None, s)
      | Inr t \<Rightarrow>
          (case objectMap s (tblId, objId) of
             None \<Rightarrow> (rejectOperation nonexistent rejectRules nonexistent, None, s)
           | Some r \<Rightarrow>
               (case rejectOperation nonexistent rejectRules (version (pointee r)) of
                  Inl e \<Rightarrow> (Inl e, Some (version (pointee r)), s)
                | Inr u \<Rightarrow>
                    (case RaiseVersion t (version (pointee r) + 1) s of
                       Inl e \<Rightarrow> (Inl e, Some (version (pointee r)), s)
                     | Inr s1 \<Rightarrow>
                         (let tomb = ObjectTombstone_ctor uninit (pointee r);
                              s2 = log_free (addr r) s1;
                              s3 = snd (log_append (LOG_ENTRY_TYPE_OBJTOMB tomb) s2);
                              s4 = objectMap_remove (tblId, objId) s3
                          in (Inr (), Some (version (pointee r)), s4))))))"

text \<open>\<^verbatim>\<open>MasterServer::create\<close>: the reject rules are zeroed and \<open>exists\<close> is set. The result
  is \<open>None\<close> when the key allocation does not return; otherwise it also carries the id left
  in \<^verbatim>\<open>respHdr.id\<close>.\<close>

definition create ::
  "u64 \<Rightarrow> u64 \<Rightarrow> u8 list \<Rightarrow> u32 \<Rightarrow> u32 \<Rightarrow> MasterServer
     \<Rightarrow> ((error + unit) \<times> u64 option \<times> u64 option \<times> MasterServer) option" where
  "create nonexistent tblId buf dataOffset dataLength s =
     (case getTable (ucast tblId) (- 1) s of
        Inl e \<Rightarrow> Some (Inl e, None, None, s)
      | Inr t \<Rightarrow>
          (case AllocateKey t s of
             None \<Rightarrow> None
           | Some (Inl e) \<Rightarrow> Some (Inl e, None, None, s)
           | Some (Inr (k, s1)) \<Rightarrow>
               (let rejectRules = \<lparr>givenVersion = 0, doesntExist = 0, exists = 1,
                                   versionLeGiven = 0, versionNeGiven = 0\<rparr>
                in case storeData nonexistent tblId k rejectRules buf dataOffset dataLength s1 of
                     (Inl e, v, s2) \<Rightarrow> Some (Inl e, v, None, s2)
                   | (Inr u, v, s2) \<Rightarrow> Some (Inr (), v, Some k, s2))))"


subsection \<open>Segment replay\<close>

text \<open>The recovery-tombstone index \<^verbatim>\<open>ObjectTombstoneMap\<close> holds heap copies of tombstones; it
  is a parameter of \<^verbatim>\<open>recoverSegment\<close>, so the replay state is the server together with it.\<close>

type_synonym ObjectTombstoneMap = "key \<rightharpoonup> ObjectTombstone"

type_synonym ReplayState = "MasterServer \<times> ObjectTombstoneMap"

definition tombstoneMap_replace :: "key \<Rightarrow> ObjectTombstone \<Rightarrow> ReplayState \<Rightarrow> ReplayState" where
  "tombstoneMap_replace k t st =
     (case st of (s, tombstoneMap) \<Rightarrow>
        (s\<lparr>trace := trace s @ [TombstoneReplace k t]\<rparr>, tombstoneMap(k \<mapsto> t)))"

definition tombstoneMap_remove :: "key \<Rightarrow> ReplayState \<Rightarrow> ReplayState" where
  "tombstoneMap_remove k st =
     (case st of (s, tombstoneMap) \<Rightarrow>
        (s\<lparr>trace := trace s @ [TombstoneRemove k]\<rparr>, tombstoneMap(k := None)))"

text \<open>One iteration of the \<^verbatim>\<open>while (!i.isDone())\<close> loop of \<^verbatim>\<open>recoverSegment\<close>, for the
  entry under the iterator. The prefetcher changes no state and is left out.\<close>

definition recoverEntry :: "LogEntry \<Rightarrow> ReplayState \<Rightarrow> error + ReplayState" where
  "recoverEntry e st =
     (case st of (s, tombstoneMap) \<Rightarrow>
       (case e of
          LOG_ENTRY_TYPE_OBJ recoverObj \<Rightarrow>
            (let objId = id_obj recoverObj;
                 tblId = table recoverObj;
                 localObj = objectMap s (tblId, objId);
                 tomb = tombstoneMap (tblId, objId)
             in if \<not> (tomb = None \<or> localObj = None) then Inl AssertionFailed
                else
                  (let minSuccessor =
                         (case localObj of
                            Some l \<Rightarrow> version (pointee l) + 1
                          | None \<Rightarrow>
                              (case tomb of Some t \<Rightarrow> objectVersion t + 1 | None \<Rightarrow> 0))
                   in if minSuccessor \<le> version recoverObj then
                        (let (a, s1) = log_append (LOG_ENTRY_TYPE_OBJ recoverObj) s;
                             newObj = \<lparr>addr = a, pointee = recoverObj\<rparr>;
                             s2 = objectMap_replace (tblId, objId) newObj s1;
                             st3 = (case tomb of
                                      None \<Rightarrow> (s2, tombstoneMap)
                                    | Some t \<Rightarrow>
                                        tombstoneMap_remove (tblId, objId) (s2, tombstoneMap))
                         in Inr (case localObj of
                                   None \<Rightarrow> st3
                                 | Some l \<Rightarrow> (log_free (addr l) (fst st3), snd st3)))
                      else Inr st))
        | LOG_ENTRY_TYPE_OBJTOMB recoverTomb \<Rightarrow>
            (let objId = objectId recoverTomb;
                 tblId = tableId recoverTomb;
                 localObj = objectMap s (tblId, objId);
                 tomb = tombstoneMap (tblId, objId)
             in if \<not> (tomb = None \<or> localObj = None) then Inl AssertionFailed
                else
                  (let minSuccessor =
                         (case localObj of
                            Some l \<Rightarrow> version (pointee l)
                          | None \<Rightarrow>
                              (case tomb of Some t \<Rightarrow> objectVersion t + 1 | None \<Rightarrow> 0))
                   in if minSuccessor \<le> objectVersion recoverTomb then
                        (let st1 = tombstoneMap_replace (tblId, objId) recoverTomb st
                         in Inr (case localObj of
                                   None \<Rightarrow> st1
                                 | Some l \<Rightarrow>
                                     (log_free (addr l)
                                        (objectMap_remove (tblId, objId) (fst st1)),
                                      snd st1)))
                      else Inr st))
        | LOG_ENTRY_TYPE_OTHER \<Rightarrow> Inr st))"

text \<open>\<^verbatim>\<open>MasterServer::recoverSegment\<close>: the filtered segment is the list of its entries, and
  the loop stops at a failed assertion.\<close>

fun recoverSegment :: "u64 \<Rightarrow> LogEntry list \<Rightarrow> ReplayState \<Rightarrow> error + ReplayState" where
  "recoverSegment segId [] st = Inr st"
| "recoverSegment segId (e # es) st =
     (case recoverEntry e st of
        Inl err \<Rightarrow> Inl err
      | Inr st' \<Rightarrow> recoverSegment segId es st')"

text \<open>Replaying a sequence of segments one after the other, as the recovery driver does with
  the segments it fetches.\<close>

fun recoverSegments :: "(u64 \<times> LogEntry list) list \<Rightarrow> ReplayState \<Rightarrow> error + ReplayState" where
  "recoverSegments [] st = Inr st"
| "recoverSegments (seg # segs) st =
     (case recoverSegment (fst seg) (snd seg) st of
        Inl err \<Rightarrow> Inl err
      | Inr st' \<Rightarrow> recoverSegments segs st')"

text \<open>What the two indexes hold: the record each key refers to.\<close>

definition indexContents :: "MasterServer \<Rightarrow> key \<Rightarrow> Object option" where
  "indexContents s k = map_option pointee (objectMap s k)"

definition replayContents :: "ReplayState \<Rightarrow> (key \<Rightarrow> Object option) \<times> ObjectTombstoneMap" where
  "replayContents st = (indexContents (fst st), snd st)"

subsection \<open>The reject rules as the spec tabulates them\<close>

text \<open>The decision table of the spec, one row per line of the table: a condition and its
  outcome. The first row whose condition holds decides; when none does the operation is
  accepted.\<close>

definition rejectRulesTable :: "u64 \<Rightarrow> RejectRules \<Rightarrow> u64 \<Rightarrow> (bool \<times> (error + unit)) list" where
  "rejectRulesTable nonexistent rules currentVersion =
     [(currentVersion = nonexistent \<and> doesntExist rules \<noteq> 0, Inl ObjectDoesntExist),
      (currentVersion = nonexistent, Inr ()),
      (exists rules \<noteq> 0, Inl ObjectExists),
      (versionLeGiven rules \<noteq> 0 \<and> currentVersion \<le> givenVersion rules, Inl WrongVersion),
      (versionNeGiven rules \<noteq> 0 \<and> currentVersion \<noteq> givenVersion rules, Inl WrongVersion)]"

fun firstMatch :: "(bool \<times> 'a) list \<Rightarrow> 'a \<Rightarrow> 'a" where
  "firstMatch [] d = d"
| "firstMatch (row # rows) d = (if fst row then snd row else firstMatch rows d)"

subsection \<open>The backup chooser and the recovery driver\<close>

datatype ServerType = MASTER | BACKUP

text \<open>\<^verbatim>\<open>ProtoBuf::ServerList::Entry\<close>; \<open>segment_id\<close> is \<open>None\<close> when \<^verbatim>\<open>has_segment_id()\<close> is
  false.\<close>

record ServerListEntry =
  server_type :: ServerType
  service_locator :: string
  segment_id :: "u64 option"

text \<open>\<^verbatim>\<open>SegmentLocatorChooser\<close>: the \<^verbatim>\<open>std::multimap\<close> from segment ids to locators is a
  list of pairs ordered by key, equal keys in insertion order; \<open>ids\<close> is the schedule.\<close>

record SegmentLocatorChooser =
  map_chooser :: "(u64 \<times> string) list"
  ids :: "u64 list"

definition multimap_insert :: "u64 \<times> string \<Rightarrow> (u64 \<times> string) list \<Rightarrow> (u64 \<times> string) list" where
  "multimap_insert kv m =
     takeWhile (\<lambda>x. fst x \<le> fst kv) m @ kv # dropWhile (\<lambda>x. fst x \<le> fst kv) m"

fun chooser_fill :: "ServerListEntry list \<Rightarrow> (u64 \<times> string) list \<Rightarrow> (u64 \<times> string) list" where
  "chooser_fill [] m = m"
| "chooser_fill (server # rest) m =
     (case segment_id server of
        None \<Rightarrow> chooser_fill rest m
      | Some seg \<Rightarrow>
          if server_type server \<noteq> BACKUP then chooser_fill rest m
          else chooser_fill rest (multimap_insert (seg, service_locator server) m))"

text \<open>The constructor; \<^verbatim>\<open>std::random_shuffle\<close> is the parameter \<open>shuffle\<close>.\<close>

definition SegmentLocatorChooser_ctor ::
  "(u64 list \<Rightarrow> u64 list) \<Rightarrow> ServerListEntry list \<Rightarrow> SegmentLocatorChooser" where
  "SegmentLocatorChooser_ctor shuffle list =
     (let m = chooser_fill list []
      in \<lparr>map_chooser = m, ids = shuffle (remdups_adj (map fst m))\<rparr>)"

text \<open>\<^verbatim>\<open>SegmentLocatorChooser::get\<close>; the value \<^verbatim>\<open>rdtsc()\<close> returns is the parameter \<open>tsc\<close>.\<close>

definition get :: "u64 \<Rightarrow> u64 \<Rightarrow> SegmentLocatorChooser \<Rightarrow> error + string" where
  "get tsc segId c =
     (let range = filter (\<lambda>x. fst x = segId) (map_chooser c)
      in if range = [] then Inl SegmentRecoveryFailed
         else Inr (snd (range ! (unat tsc mod length range))))"

definition getSegmentIdList :: "SegmentLocatorChooser \<Rightarrow> u64 list" where
  "getSegmentIdList c = ids c"

text \<open>\<^verbatim>\<open>SegmentLocatorChooser::markAsDown\<close> erases the first entry of the segment's range
  that has the locator.\<close>

definition markAsDown :: "u64 \<Rightarrow> string \<Rightarrow> SegmentLocatorChooser \<Rightarrow> SegmentLocatorChooser" where
  "markAsDown segId locator c = c\<lparr>map_chooser := remove1 (segId, locator) (map_chooser c)\<rparr>"

text \<open>What invoking a \<^verbatim>\<open>GetRecoveryData\<close> RPC gives: one of the two exceptions the driver
  catches, or the filtered segment.\<close>

datatype FetchResult =
    TransportException
  | ClientException
  | RecoveryData "LogEntry list"

text \<open>\<^verbatim>\<open>struct Task\<close> and the local variables of \<^verbatim>\<open>MasterServer::recover\<close>: the four task
  slots, the rest of the schedule (\<^verbatim>\<open>segIdsIt\<close> to \<^verbatim>\<open>segIdsEnd\<close>), the number of calls of
  \<^verbatim>\<open>rdtsc\<close> so far, and the replay state. The chooser is never changed by the driver.
  An exception leaves the driver together with the replay state at the throw: what has been
  replayed by then stays in the log and in the index.\<close>

record Task =
  task_segmentId :: u64
  backupLocator :: string

record RecoverState =
  tasks :: "Task option list"
  segIds :: "u64 list"
  activeSegments :: u32
  tscCalls :: nat
  replay :: ReplayState

text \<open>The environment of a recovery: the values of \<^verbatim>\<open>rdtsc\<close> call by call, and the answer
  of the backup at a locator for a segment id.\<close>

record RecoverEnv =
  rdtsc :: "nat \<Rightarrow> u64"
  getRecoveryData :: "u64 \<Rightarrow> string \<Rightarrow> FetchResult"

text \<open>\<^verbatim>\<open>task.construct(masterId, segmentId, chooser.get(segmentId).c_str(), tablets)\<close> in slot
  \<open>i\<close>, for the next segment id of the schedule.\<close>

definition constructTask ::
  "RecoverEnv \<Rightarrow> SegmentLocatorChooser \<Rightarrow> nat \<Rightarrow> RecoverState
     \<Rightarrow> error \<times> ReplayState + RecoverState" where
  "constructTask env chooser i r =
     (case segIds r of
        [] \<Rightarrow> Inr r
      | segId # rest \<Rightarrow>
          (case get (rdtsc env (tscCalls r)) segId chooser of
             Inl e \<Rightarrow> Inl (e, replay r)
           | Inr locator \<Rightarrow>
               Inr (r\<lparr>tasks := (tasks r)[i := Some \<lparr>task_segmentId = segId,
                                                     backupLocator = locator\<rparr>],
                      segIds := rest, tscCalls := Suc (tscCalls r)\<rparr>)))"

text \<open>The first loop of \<^verbatim>\<open>recover\<close> (start RPCs), over the slots \<open>is\<close>.\<close>

fun startTasks ::
  "RecoverEnv \<Rightarrow> SegmentLocatorChooser \<Rightarrow> nat list \<Rightarrow> RecoverState
     \<Rightarrow> error \<times> ReplayState + RecoverState" where
  "startTasks env chooser [] r = Inr r"
| "startTasks env chooser (i # is) r =
     (if segIds r = [] then Inr r
      else (case constructTask env chooser i r of
              Inl e \<Rightarrow> Inl e
            | Inr r' \<Rightarrow>
                startTasks env chooser is (r'\<lparr>activeSegments := activeSegments r' + 1\<rparr>)))"

text \<open>The body of \<^verbatim>\<open>foreach (auto& task, tasks)\<close> in the second loop, for slot \<open>i\<close>. An RPC
  that has been started is taken to be ready when the loop reaches it. Both catch blocks
  throw \<^verbatim>\<open>SegmentRecoveryFailedException\<close>. The only error of \<open>recoverSegment\<close> is a failed
  assertion, which ends the process; the state given with it is the one before the
  segment.\<close>

definition processTask ::
  "RecoverEnv \<Rightarrow> SegmentLocatorChooser \<Rightarrow> nat \<Rightarrow> RecoverState
     \<Rightarrow> error \<times> ReplayState + RecoverState" where
  "processTask env chooser i r =
     (case tasks r ! i of
        None \<Rightarrow> Inr r
      | Some task \<Rightarrow>
          (case getRecoveryData env (task_segmentId task) (backupLocator task) of
             TransportException \<Rightarrow> Inl (SegmentRecoveryFailed, replay r)
           | ClientException \<Rightarrow> Inl (SegmentRecoveryFailed, replay r)
           | RecoveryData entries \<Rightarrow>
               (case recoverSegment (task_segmentId task) entries (replay r) of
                  Inl e \<Rightarrow> Inl (e, replay r)
                | Inr st \<Rightarrow>
                    (let r1 = r\<lparr>replay := st, tasks := (tasks r)[i := None]\<rparr>
                     in if segIds r1 = []
                        then Inr (r1\<lparr>activeSegments := activeSegments r1 - 1\<rparr>)
                        else constructTask env chooser i r1))))"

fun processTasks ::
  "RecoverEnv \<Rightarrow> SegmentLocatorChooser \<Rightarrow> nat list \<Rightarrow> RecoverState
     \<Rightarrow> error \<times> ReplayState + RecoverState" where
  "processTasks env chooser [] r = Inr r"
| "processTasks env chooser (i # is) r =
     (case processTask env chooser i r of
        Inl e \<Rightarrow> Inl e
      | Inr r' \<Rightarrow> processTasks env chooser is r')"

text \<open>\<^verbatim>\<open>while (activeSegments > 0)\<close>; \<open>None\<close> is a loop that does not end.\<close>

partial_function (option) recoverLoop ::
  "RecoverEnv \<Rightarrow> SegmentLocatorChooser \<Rightarrow> RecoverState
     \<Rightarrow> (error \<times> ReplayState + RecoverState) option" where
  "recoverLoop env chooser r =
     (if 0 < activeSegments r then
        (case processTasks env chooser [0, 1, 2, 3] r of
           Inl e \<Rightarrow> Some (Inl e)
         | Inr r' \<Rightarrow> recoverLoop env chooser r')
      else Some (Inr r))"

text \<open>\<^verbatim>\<open>MasterServer::recover(masterId, tablets, backups, tombstoneMap)\<close>. The first call of
  \<^verbatim>\<open>rdtsc\<close> is that of \<^verbatim>\<open>srand(rdtsc())\<close>. The final \<^verbatim>\<open>log.sync()\<close> changes nothing that
  the model holds.\<close>

definition recover ::
  "RecoverEnv \<Rightarrow> (u64 list \<Rightarrow> u64 list) \<Rightarrow> ServerListEntry list \<Rightarrow> ReplayState
     \<Rightarrow> (error \<times> ReplayState + ReplayState) option" where
  "recover env shuffle backups st =
     (let chooser = SegmentLocatorChooser_ctor shuffle backups;
          r0 = \<lparr>tasks = [None, None, None, None], segIds = getSegmentIdList chooser,
                activeSegments = 0, tscCalls = 1, replay = st\<rparr>
      in case startTasks env chooser [0, 1, 2, 3] r0 of
           Inl e \<Rightarrow> Some (Inl e)
         | Inr r1 \<Rightarrow>
             (case recoverLoop env chooser r1 of
                None \<Rightarrow> None
              | Some (Inl e) \<Rightarrow> Some (Inl e)
              | Some (Inr r2) \<Rightarrow> Some (Inr (replay r2))))"

subsection \<open>Setting the tablets\<close>

text \<open>\<^verbatim>\<open>typedef std::map<uint32_t, Table*> Tables\<close>: a list of pairs in key order with one
  entry per key. \<open>Tables_set\<close> is the assignment \<^verbatim>\<open>tables[k] = p\<close>, \<open>Tables_get\<close> the read
  \<^verbatim>\<open>tables[k]\<close>, which gives the null pointer for a key that has no entry. The key type is
  32 bits wide, the \<open>table_id\<close> of a tablet 64 bits: the id is truncated on the way in.\<close>

type_synonym Tables = "(u32 \<times> nat) list"

fun Tables_set :: "u32 \<Rightarrow> nat \<Rightarrow> Tables \<Rightarrow> Tables" where
  "Tables_set k p [] = [(k, p)]"
| "Tables_set k p (e # m) =
     (if k = fst e then (k, p) # m
      else if k < fst e then (k, p) # e # m
      else e # Tables_set k p m)"

definition Tables_get :: "Tables \<Rightarrow> u32 \<Rightarrow> nat" where
  "Tables_get m k = (case map_of m k of None \<Rightarrow> 0 | Some p \<Rightarrow> p)"

text \<open>First loop: the map from table id to \<^verbatim>\<open>Table\<close> of the tablets served so far.\<close>

fun oldTables :: "Tablet list \<Rightarrow> Tables \<Rightarrow> Tables" where
  "oldTables [] m = m"
| "oldTables (oldTablet # rest) m =
     oldTables rest (Tables_set (ucast (table_id oldTablet)) (user_data oldTablet) m)"

text \<open>Second loop: \<^verbatim>\<open>delete\<close> the table of every entry whose key is the \<open>table_id\<close> of no new
  tablet. The entry is a copy (\<^verbatim>\<open>foreach (Tables::value_type oldTable, tables)\<close>), so setting
  its pointer to null afterwards leaves the map as it is. Deleting the null pointer does
  nothing.\<close>

definition delete_Table :: "nat \<Rightarrow> (nat \<rightharpoonup> Table) \<Rightarrow> (nat \<rightharpoonup> Table)" where
  "delete_Table p h = (if p = 0 then h else h(p := None))"

fun deleteTables :: "Tables \<Rightarrow> Tablet list \<Rightarrow> (nat \<rightharpoonup> Table) \<Rightarrow> (nat \<rightharpoonup> Table)" where
  "deleteTables [] newTablets h = h"
| "deleteTables (oldTable # rest) newTablets h =
     (if \<exists>newTablet \<in> set newTablets. ucast (fst oldTable) = table_id newTablet
      then deleteTables rest newTablets h
      else deleteTables rest newTablets (delete_Table (snd oldTable) h))"

text \<open>Third loop: every new tablet gets the table its id has in the map, a new one when the
  map has the null pointer there. The state of the loop is the map, the heap and the next
  free address.\<close>

fun assignTables ::
  "Tablet list \<Rightarrow> Tables \<times> (nat \<rightharpoonup> Table) \<times> nat
     \<Rightarrow> Tablet list \<times> Tables \<times> (nat \<rightharpoonup> Table) \<times> nat" where
  "assignTables [] st = ([], st)"
| "assignTables (newTablet # rest) st =
     (case st of (m, h, n) \<Rightarrow>
        (let k = ucast (table_id newTablet) :: u32;
             p = Tables_get m k;
             st' = (if p = 0
                    then (Tables_set k n m, h(n \<mapsto> Table_ctor (table_id newTablet)), Suc n)
                    else st);
             p' = (if p = 0 then n else p);
             res = assignTables rest st'
         in (newTablet\<lparr>user_data := p'\<rparr> # fst res, snd res)))"

text \<open>\<^verbatim>\<open>MasterServer::setTablets(const ProtoBuf::Tablets& newTablets)\<close>.\<close>

definition setTablets :: "Tablet list \<Rightarrow> MasterServer \<Rightarrow> MasterServer" where
  "setTablets newTablets s =
     (let m = oldTables (tablets s) [];
          h = deleteTables m newTablets (tableHeap s);
          res = assignTables newTablets (m, h, tableNext s)
      in s\<lparr>tablets := fst res, tableHeap := fst (snd (snd res)),
           tableNext := snd (snd (snd res))\<rparr>)"

text \<open>The state the constructor leaves: no tablets, an empty index and an empty log whose
  segments hold \<open>segBytes\<close> bytes.\<close>

definition MasterServer_ctor :: "nat \<Rightarrow> MasterServer" where
  "MasterServer_ctor segBytes =
     \<lparr>tablets = [], tableHeap = Map.empty, tableNext = 1, objectMap = Map.empty,
      log = \<lparr>appended = [], freed = [], segmentOf = (\<lambda>a. 0), head = 0, headBytes = 0,
             segmentBytes = segBytes\<rparr>,
      trace = [], bytesWritten = 0\<rparr>"

subsection \<open>The recovery request\<close>

text \<open>\<^verbatim>\<open>MasterServer::recover(reqHdr, respHdr, rpc, responder)\<close> (the name of the driver is
  taken, hence the suffix): the driver runs with an empty recovery-tombstone index, which is
  dropped afterwards; then the tablets recovered are added to the tablets served. An
  exception of the driver leaves the handler before that. Setting the locator and the server
  id of the recovered tablets changes nothing that the model holds; the call
  \<^verbatim>\<open>coordinator->tabletsRecovered\<close> is taken to return.\<close>

definition recover_rpc ::
  "RecoverEnv \<Rightarrow> (u64 list \<Rightarrow> u64 list) \<Rightarrow> Tablet list \<Rightarrow> ServerListEntry list \<Rightarrow> MasterServer
     \<Rightarrow> ((error + unit) \<times> MasterServer) option" where
  "recover_rpc env shuffle recoveryTablets backups s =
     (case recover env shuffle backups (s, Map.empty) of
        None \<Rightarrow> None
      | Some (Inl (e, st)) \<Rightarrow> Some (Inl e, fst st)
      | Some (Inr st) \<Rightarrow>
          Some (Inr (), setTablets (tablets (fst st) @ recoveryTablets) (fst st)))"

subsection \<open>Dispatch\<close>

text \<open>The requests \<^verbatim>\<open>MasterServer::dispatch\<close> handles, with the fields of their headers and
  the request payload. A recovery request comes with what its handling meets outside the
  server: the answers of the backups and the values of \<^verbatim>\<open>rdtsc\<close>, and the permutation that
  \<^verbatim>\<open>std::random_shuffle\<close> makes. \<open>OtherRpc\<close> is a request of any other type.\<close>

datatype Rpc =
    CreateRpc u64 "u8 list" u32 u32
  | PingRpc
  | ReadRpc u64 u64 RejectRules
  | RecoverRpc "Tablet list" "ServerListEntry list" RecoverEnv "u64 list \<Rightarrow> u64 list"
  | RemoveRpc u64 u64 RejectRules
  | SetTabletsRpc "Tablet list"
  | WriteRpc u64 u64 RejectRules "u8 list" u32 u32
  | OtherRpc

text \<open>\<^verbatim>\<open>MasterServer::dispatch\<close>: the outcome of the handler, the version left in the response
  header, and the state.\<close>

definition dispatch ::
  "u64 \<Rightarrow> u64 \<Rightarrow> Rpc \<Rightarrow> MasterServer \<Rightarrow> ((error + unit) \<times> u64 option \<times> MasterServer) option" where
  "dispatch nonexistent uninit rpc s =
     (case rpc of
        CreateRpc tblId buf dataOffset dataLength \<Rightarrow>
          (case create nonexistent tblId buf dataOffset dataLength s of
             None \<Rightarrow> None
           | Some (r, v, i, s') \<Rightarrow> Some (r, v, s'))
      | PingRpc \<Rightarrow> Some (Inr (), None, s)
      | ReadRpc tblId objId rejectRules \<Rightarrow>
          (case read nonexistent tblId objId rejectRules s of
             (Inl e, v, s') \<Rightarrow> Some (Inl e, v, s')
           | (Inr bytes, v, s') \<Rightarrow> Some (Inr (), v, s'))
      | RecoverRpc recoveryTablets backups env shuffle \<Rightarrow>
          (case recover_rpc env shuffle recoveryTablets backups s of
             None \<Rightarrow> None
           | Some (r, s') \<Rightarrow> Some (r, None, s'))
      | RemoveRpc tblId objId rejectRules \<Rightarrow>
          Some (remove nonexistent uninit tblId objId rejectRules s)
      | SetTabletsRpc newTablets \<Rightarrow> Some (Inr (), None, setTablets newTablets s)
      | WriteRpc tblId objId rejectRules buf dataOffset dataLength \<Rightarrow>
          Some (write_rpc nonexistent tblId objId rejectRules buf dataOffset dataLength s)
      | OtherRpc \<Rightarrow> Some (Inl UnimplementedRequestError, None, s))"

subsection \<open>Concrete states\<close>

text \<open>A server that owns all of table 7 and holds one object, version 5 of key (7, 1), at
  address 0 of the log in segment 3.\<close>

definition noRules :: RejectRules where
  "noRules = \<lparr>givenVersion = 0, doesntExist = 0, exists = 0, versionLeGiven = 0,
              versionNeGiven = 0\<rparr>"

definition object5 :: Object where
  "object5 = \<lparr>table = 7, id_obj = 1, version = 5, checksum = 0x0BE70BE70BE70BE7,
              data_len = 0, data = []\<rparr>"

definition server1 :: MasterServer where
  "server1 =
     \<lparr>tablets = [\<lparr>table_id = 7, start_object_id = 0, end_object_id = - 1, user_data = 1\<rparr>],
      tableHeap = [1 \<mapsto> \<lparr>tableId_T = 7, nextKey = 0, nextVersion = 6\<rparr>],
      tableNext = 2,
      objectMap = [(7, 1) \<mapsto> \<lparr>addr = 0, pointee = object5\<rparr>],
      log = \<lparr>appended = [LOG_ENTRY_TYPE_OBJ object5], freed = [],
             segmentOf = (\<lambda>a. 0)(0 := 3), head = 3, headBytes = 36, segmentBytes = 1024\<rparr>,
      trace = [], bytesWritten = 0\<rparr>"

subsection \<open>Vocabulary of the replay properties\<close>

text \<open>The \<open>minSuccessor\<close> of the spec for an object record and for a tombstone record, from
  the record \<open>L\<close> the object index holds for the key and the tombstone \<open>T\<close> the
  recovery-tombstone index holds for it; \<open>+\<close> is the addition of 64-bit unsigned integers.\<close>

definition minSuccessor_obj :: "Object option \<Rightarrow> ObjectTombstone option \<Rightarrow> u64" where
  "minSuccessor_obj L T =
     (case L of
        Some l \<Rightarrow> version l + 1
      | None \<Rightarrow> (case T of Some t \<Rightarrow> objectVersion t + 1 | None \<Rightarrow> 0))"

definition minSuccessor_tomb :: "Object option \<Rightarrow> ObjectTombstone option \<Rightarrow> u64" where
  "minSuccessor_tomb L T =
     (case L of
        Some l \<Rightarrow> version l
      | None \<Rightarrow> (case T of Some t \<Rightarrow> objectVersion t + 1 | None \<Rightarrow> 0))"

text \<open>The key of a record, and the invariant I1 of the spec on a replay state: no key has
  both an object in the object index and a tombstone in the recovery-tombstone index.\<close>

definition entryKey :: "LogEntry \<Rightarrow> key option" where
  "entryKey e =
     (case e of
        LOG_ENTRY_TYPE_OBJ obj \<Rightarrow> Some (table obj, id_obj obj)
      | LOG_ENTRY_TYPE_OBJTOMB t \<Rightarrow> Some (tableId t, objectId t)
      | LOG_ENTRY_TYPE_OTHER \<Rightarrow> None)"

definition notBoth :: "ReplayState \<Rightarrow> bool" where
  "notBoth st = (\<forall>k. \<not> (objectMap (fst st) k \<noteq> None \<and> snd st k \<noteq> None))"

text \<open>Records of key (7, 2) with the largest version a 64-bit field can hold and with
  version 9, a tombstone for version 5 of key (7, 1), and recovery-tombstone indexes that
  hold a tombstone of key (7, 2) only.\<close>

definition objectMax :: Object where
  "objectMax = \<lparr>table = 7, id_obj = 2, version = - 1, checksum = 0x0BE70BE70BE70BE7,
                data_len = 0, data = []\<rparr>"

definition tombstoneMax :: ObjectTombstone where
  "tombstoneMax = \<lparr>segmentId = 3, tableId = 7, objectId = 2, objectVersion = - 1\<rparr>"

definition tombstone5 :: ObjectTombstone where
  "tombstone5 = \<lparr>segmentId = 3, tableId = 7, objectId = 1, objectVersion = 5\<rparr>"

definition tombstones1 :: ObjectTombstoneMap where
  "tombstones1 = [(7, 2) \<mapsto> tombstoneMax]"

definition object9 :: Object where
  "object9 = \<lparr>table = 7, id_obj = 2, version = 9, checksum = 0x0BE70BE70BE70BE7,
              data_len = 0, data = []\<rparr>"

definition tombstone9 :: ObjectTombstone where
  "tombstone9 = \<lparr>segmentId = 3, tableId = 7, objectId = 2, objectVersion = 9\<rparr>"

definition tombstones9 :: ObjectTombstoneMap where
  "tombstones9 = [(7, 2) \<mapsto> tombstone9]"

definition tombstones5 :: ObjectTombstoneMap where
  "tombstones5 = [(7, 1) \<mapsto> tombstone5]"

subsection \<open>The version-wins merge of the spec\<close>

text \<open>The spec describes the replay as a commutative max over versions. What the two indexes
  hold for a key is a cell: nothing, an object or a tombstone. A record replaces the cell of
  its key when it beats it: an object beats an older object and an older tombstone, a
  tombstone beats an older tombstone and an object that is not newer.\<close>

datatype Cell = Empty | Obj Object | Tomb ObjectTombstone

definition cells :: "ReplayState \<Rightarrow> key \<Rightarrow> Cell" where
  "cells st k =
     (case objectMap (fst st) k of
        Some r \<Rightarrow> Obj (pointee r)
      | None \<Rightarrow> (case snd st k of Some t \<Rightarrow> Tomb t | None \<Rightarrow> Empty))"

definition maxVersionMerge :: "LogEntry \<Rightarrow> (key \<Rightarrow> Cell) \<Rightarrow> (key \<Rightarrow> Cell)" where
  "maxVersionMerge e c =
     (case e of
        LOG_ENTRY_TYPE_OBJ R \<Rightarrow>
          (if (case c (table R, id_obj R) of
                 Empty \<Rightarrow> True
               | Obj l \<Rightarrow> version l < version R
               | Tomb t \<Rightarrow> objectVersion t < version R)
           then c((table R, id_obj R) := Obj R) else c)
      | LOG_ENTRY_TYPE_OBJTOMB R \<Rightarrow>
          (if (case c (tableId R, objectId R) of
                 Empty \<Rightarrow> True
               | Obj l \<Rightarrow> version l \<le> objectVersion R
               | Tomb t \<Rightarrow> objectVersion t < objectVersion R)
           then c((tableId R, objectId R) := Tomb R) else c)
      | LOG_ENTRY_TYPE_OTHER \<Rightarrow> c)"

text \<open>The version of a record; a replay state none of whose versions is \<open>2^64 - 1\<close>; and a
  list of records in which two records of the same type, key and version are the same
  record.\<close>

definition entryVersion :: "LogEntry \<Rightarrow> u64 option" where
  "entryVersion e =
     (case e of
        LOG_ENTRY_TYPE_OBJ obj \<Rightarrow> Some (version obj)
      | LOG_ENTRY_TYPE_OBJTOMB t \<Rightarrow> Some (objectVersion t)
      | LOG_ENTRY_TYPE_OTHER \<Rightarrow> None)"

definition isObject :: "LogEntry \<Rightarrow> bool" where
  "isObject e = (case e of LOG_ENTRY_TYPE_OBJ obj \<Rightarrow> True | _ \<Rightarrow> False)"

definition belowMax :: "ReplayState \<Rightarrow> bool" where
  "belowMax st =
     (\<forall>k. (\<forall>r. objectMap (fst st) k = Some r \<longrightarrow> version (pointee r) \<noteq> - 1) \<and>
          (\<forall>t. snd st k = Some t \<longrightarrow> objectVersion t \<noteq> - 1))"

definition oneRecordPerVersion :: "LogEntry list \<Rightarrow> bool" where
  "oneRecordPerVersion es =
     (\<forall>e1 \<in> set es. \<forall>e2 \<in> set es.
        isObject e1 = isObject e2 \<and> entryKey e1 = entryKey e2 \<and>
        entryVersion e1 = entryVersion e2 \<longrightarrow> e1 = e2)"

definition object9b :: Object where
  "object9b = \<lparr>table = 7, id_obj = 2, version = 9, checksum = 0x0BE70BE70BE70BE7,
               data_len = 1, data = [1]\<rparr>"

text \<open>Filtered segment streams, each with a permutation of it that keeps every record in
  its segment: one whose records have distinct versions per key and type, one with two
  different objects of the same key and version, and one with an object of version
  \<open>2^64 - 1\<close>.\<close>

definition stream1 :: "(u64 \<times> LogEntry list) list" where
  "stream1 = [(1, [LOG_ENTRY_TYPE_OBJ object9, LOG_ENTRY_TYPE_OBJTOMB tombstone5]),
              (2, [LOG_ENTRY_TYPE_OBJTOMB tombstone9])]"

definition stream1_permuted :: "(u64 \<times> LogEntry list) list" where
  "stream1_permuted = [(2, [LOG_ENTRY_TYPE_OBJTOMB tombstone9]),
                       (1, [LOG_ENTRY_TYPE_OBJTOMB tombstone5, LOG_ENTRY_TYPE_OBJ object9])]"

definition stream2 :: "(u64 \<times> LogEntry list) list" where
  "stream2 = [(1, [LOG_ENTRY_TYPE_OBJ object9]), (2, [LOG_ENTRY_TYPE_OBJ object9b])]"

definition stream2_permuted :: "(u64 \<times> LogEntry list) list" where
  "stream2_permuted = [(2, [LOG_ENTRY_TYPE_OBJ object9b]), (1, [LOG_ENTRY_TYPE_OBJ object9])]"

definition stream3 :: "(u64 \<times> LogEntry list) list" where
  "stream3 = [(1, [LOG_ENTRY_TYPE_OBJ objectMax]), (2, [LOG_ENTRY_TYPE_OBJ object9])]"

definition stream3_permuted :: "(u64 \<times> LogEntry list) list" where
  "stream3_permuted = [(2, [LOG_ENTRY_TYPE_OBJ object9]), (1, [LOG_ENTRY_TYPE_OBJ objectMax])]"

text \<open>A recovery with one segment, 42, that two backups hold: the backup at \<open>b1\<close> answers
  with a transport error, the one at \<open>b2\<close> with the (empty) filtered segment; \<^verbatim>\<open>rdtsc\<close>
  gives 0, so that the chooser picks the first locator of a segment.\<close>

definition backups42 :: "ServerListEntry list" where
  "backups42 =
     [\<lparr>server_type = BACKUP, service_locator = ''b1'', segment_id = Some 42\<rparr>,
      \<lparr>server_type = BACKUP, service_locator = ''b2'', segment_id = Some 42\<rparr>]"

definition env42 :: RecoverEnv where
  "env42 =
     \<lparr>rdtsc = (\<lambda>n. 0),
      getRecoveryData = (\<lambda>segId locator.
        if locator = ''b1'' then TransportException else RecoveryData [])\<rparr>"

subsection \<open>Runs of requests\<close>


definition isRecover :: "Rpc \<Rightarrow> bool" where
  "isRecover rpc =
     (case rpc of RecoverRpc recoveryTablets backups env shuffle \<Rightarrow> True | _ \<Rightarrow> False)"

subsection \<open>Vocabulary of the version property\<close>


text \<open>The table pointers of the active tablets are in order when none is null, each is
  below the next address to allocate, and two tablets have the same pointer exactly when
  their table ids have the same 32-bit key in the table map of \<open>setTablets\<close>. The state the
  constructor leaves is so, and every request keeps it so.\<close>

definition pointersWF :: "MasterServer \<Rightarrow> bool" where
  "pointersWF s =
     ((\<forall>a \<in> set (tablets s). user_data a \<noteq> 0 \<and> user_data a < tableNext s) \<and>
      (\<forall>a \<in> set (tablets s). \<forall>b \<in> set (tablets s).
          ((ucast (table_id a) :: u32) = ucast (table_id b)) = (user_data a = user_data b)) \<and>
      0 < tableNext s)"













subsection \<open>Vocabulary of the tablet properties\<close>

text \<open>The table ids of a list of tablets fit the 32-bit key of the table map. A server
  state is well formed when every active tablet points to a live table, two active tablets
  point to the same table exactly when they have the same table id, and the heap lies below
  the next address to allocate.\<close>

definition idsFit :: "Tablet list \<Rightarrow> bool" where
  "idsFit ts = (\<forall>t \<in> set ts. table_id t < 2 ^ 32)"

definition tablesWF :: "MasterServer \<Rightarrow> bool" where
  "tablesWF s =
     ((\<forall>t \<in> set (tablets s). user_data t \<noteq> 0 \<and> tableHeap s (user_data t) \<noteq> None) \<and>
      (\<forall>a \<in> set (tablets s). \<forall>b \<in> set (tablets s).
          (table_id a = table_id b) = (user_data a = user_data b)) \<and>
      (\<forall>p. tableHeap s p \<noteq> None \<longrightarrow> p < tableNext s) \<and>
      0 < tableNext s)"

text \<open>A tablet whose table id, \<open>2^32 + 1\<close>, does not fit 32 bits, and a tablet of
  table 1.\<close>

definition tabletBig :: Tablet where
  "tabletBig = \<lparr>table_id = 4294967297, start_object_id = 0, end_object_id = - 1,
                 user_data = 0\<rparr>"

definition tabletOne :: Tablet where
  "tabletOne = \<lparr>table_id = 1, start_object_id = 0, end_object_id = - 1, user_data = 0\<rparr>"

section \<open>Properties\<close>

subsection \<open>Reject rules\<close>

text \<open>
  C2. \<open>rejectOperation\<close> decides by first match over the rows of the spec's table, in their
  order: a nonexistent object is rejected with \<open>ObjectDoesntExist\<close> when \<open>doesntExist\<close> is
  set and accepted otherwise; an existing one is rejected with \<open>ObjectExists\<close> when \<open>exists\<close>
  is set, with \<open>WrongVersion\<close> when \<open>versionLeGiven\<close> is set and the version is at most the
  given one, with \<open>WrongVersion\<close> when \<open>versionNeGiven\<close> is set and the version differs from
  the given one, and accepted otherwise. The outcome depends on the rules and the current
  version only.
\<close>

theorem rejectOperation_first_match:
  "rejectOperation nonexistent rules currentVersion =
     firstMatch (rejectRulesTable nonexistent rules currentVersion) (Inr ())"
  by (simp add: rejectOperation_def rejectRulesTable_def)

subsection \<open>Failed operations change nothing\<close>

lemma storeData_error_unchanged:
  assumes "storeData ne t k rules buf off len s = (Inl e, v, s')"
  shows "log s' = log s \<and> objectMap s' = objectMap s \<and> trace s' = trace s"
  using assms
  by (auto simp: storeData_def Let_def AllocateVersion_def
      split: sum.splits option.splits if_splits prod.splits)

lemma remove_error_unchanged:
  assumes "remove ne u t k rules s = (Inl e, v, s')"
  shows "log s' = log s \<and> objectMap s' = objectMap s \<and> trace s' = trace s"
  using assms
  by (auto simp: remove_def Let_def RaiseVersion_def
      split: sum.splits option.splits if_splits prod.splits)

lemma read_unchanged:
  assumes "read ne t k rules s = (r, v, s')"
  shows "s' = s"
  using assms
  by (auto simp: read_def Let_def split: sum.splits option.splits if_splits prod.splits)

lemma create_error_unchanged:
  assumes "create ne t buf off len s = Some (Inl e, v, i, s')"
  shows "log s' = log s \<and> objectMap s' = objectMap s \<and> trace s' = trace s"
  using assms
  apply (auto simp: create_def Let_def AllocateKey_def
      split: sum.splits option.splits if_splits prod.splits)
  apply (drule storeData_error_unchanged; simp)+
  done

text \<open>
  C8. When a read, write, create or remove fails (in particular with \<open>TableDoesntExist\<close>,
  \<open>ObjectDoesntExist\<close>, \<open>ObjectExists\<close> or \<open>WrongVersion\<close>), the log and the object index
  are as they were before the operation, and no append, free or index update was made. So
  it is for every request that \<open>dispatch\<close> handles other than a recovery, which keeps what
  it has replayed when a fetch fails.
\<close>

theorem precondition_failure_atomic:
  assumes "dispatch ne un rpc s = Some (Inl e, v, s')" and "\<not> isRecover rpc"
  shows "log s' = log s \<and> objectMap s' = objectMap s \<and> trace s' = trace s"
proof (cases rpc)
  case (CreateRpc t buf off len)
  with assms obtain i where "create ne t buf off len s = Some (Inl e, v, i, s')"
    by (auto simp: dispatch_def split: option.splits prod.splits)
  then show ?thesis by (rule create_error_unchanged)
next
  case PingRpc
  with assms show ?thesis by (simp add: dispatch_def)
next
  case (ReadRpc t k rules)
  with assms have "read ne t k rules s = (Inl e, v, s')"
    by (auto simp: dispatch_def split: prod.splits sum.splits)
  then show ?thesis by (auto dest: read_unchanged)
next
  case (RecoverRpc ts backups env shuffle)
  with assms(2) show ?thesis by (simp add: isRecover_def)
next
  case (RemoveRpc t k rules)
  with assms have "remove ne un t k rules s = (Inl e, v, s')"
    by (simp add: dispatch_def)
  then show ?thesis by (rule remove_error_unchanged)
next
  case (SetTabletsRpc ts)
  with assms show ?thesis by (simp add: dispatch_def)
next
  case OtherRpc
  with assms show ?thesis by (simp add: dispatch_def)
next
  case (WriteRpc t k rules buf off len)
  with assms have "storeData ne t k rules buf off len s = (Inl e, v, s')"
    by (simp add: dispatch_def write_rpc_def)
  then show ?thesis by (rule storeData_error_unchanged)
qed

theorem precondition_failure_atomic_witness:
  "dispatch 0 0 (WriteRpc 7 1 (noRules\<lparr>exists := 1\<rparr>) [] 0 0) server1
     = Some (Inl ObjectExists, Some 5, server1)
   \<and> \<not> isRecover (WriteRpc 7 1 (noRules\<lparr>exists := 1\<rparr>) [] 0 0)
   \<and> log server1 = log server1 \<and> objectMap server1 = objectMap server1
   \<and> trace server1 = trace server1"
proof -
  have h: "dispatch 0 0 (WriteRpc 7 1 (noRules\<lparr>exists := 1\<rparr>) [] 0 0) server1
             = Some (Inl ObjectExists, Some 5, server1)"
    by (simp add: dispatch_def write_rpc_def storeData_def getTable_def server1_def
        noRules_def object5_def rejectOperation_def)
  have n: "\<not> isRecover (WriteRpc 7 1 (noRules\<lparr>exists := 1\<rparr>) [] 0 0)"
    by (simp add: isRecover_def)
  show ?thesis using h n precondition_failure_atomic [OF h n] by simp
qed

subsection \<open>Overwriting an object\<close>

text \<open>
  C3. An accepted write that overwrites an existing object \<open>prev\<close> of key \<open>(t, k)\<close> makes
  exactly these calls, in this order: \<open>Log.free(prev)\<close>, \<open>Log.append\<close> of a tombstone that
  carries the id of the segment holding \<open>prev\<close>, \<open>Log.append\<close> of the new object, and
  \<open>replace\<close> on the index with the new reference. The free comes before both appends.
\<close>

theorem storeData_overwrite_order:
  assumes prev: "objectMap s (t, k) = Some prev"
      and acc: "storeData ne t k rules buf off len s = (Inr (), v, s')"
  shows "trace s' = trace s @
           [LogFree (addr prev),
            LogAppend (LOG_ENTRY_TYPE_OBJTOMB
              (ObjectTombstone_ctor (getSegmentId (log s) (addr prev)) (pointee prev))),
            LogAppend (LOG_ENTRY_TYPE_OBJ
              \<lparr>table = t, id_obj = k, version = version (pointee prev) + 1,
               checksum = 0x0BE70BE70BE70BE7, data_len = ucast len,
               data = take (unat len) (drop (unat off) buf)\<rparr>),
            IndexReplace (t, k) (Suc (length (appended (log s))))]
         \<and> freed (log s') = freed (log s) @ [addr prev]
         \<and> appended (log s') = appended (log s) @
              [LOG_ENTRY_TYPE_OBJTOMB
                 (ObjectTombstone_ctor (getSegmentId (log s) (addr prev)) (pointee prev)),
               LOG_ENTRY_TYPE_OBJ
                 \<lparr>table = t, id_obj = k, version = version (pointee prev) + 1,
                  checksum = 0x0BE70BE70BE70BE7, data_len = ucast len,
                  data = take (unat len) (drop (unat off) buf)\<rparr>]
         \<and> objectMap s' = (objectMap s)((t, k) \<mapsto>
              \<lparr>addr = Suc (length (appended (log s))),
               pointee = \<lparr>table = t, id_obj = k, version = version (pointee prev) + 1,
                  checksum = 0x0BE70BE70BE70BE7, data_len = ucast len,
                  data = take (unat len) (drop (unat off) buf)\<rparr>\<rparr>)"
  using acc prev
  by (auto simp: storeData_def Let_def log_append_def log_free_def Log_append_def Log_free_def
        objectMap_replace_def getSegmentId_def
      split: sum.splits option.splits if_splits prod.splits)

theorem storeData_overwrite_order_witness:
  "objectMap server1 (7, 1) = Some \<lparr>addr = 0, pointee = object5\<rparr>
   \<and> fst (storeData 0 7 1 noRules [] 0 0 server1) = Inr ()
   \<and> trace (snd (snd (storeData 0 7 1 noRules [] 0 0 server1))) =
       [LogFree 0,
        LogAppend (LOG_ENTRY_TYPE_OBJTOMB
          \<lparr>segmentId = 3, tableId = 7, objectId = 1, objectVersion = 5\<rparr>),
        LogAppend (LOG_ENTRY_TYPE_OBJ
          \<lparr>table = 7, id_obj = 1, version = 6, checksum = 0x0BE70BE70BE70BE7,
           data_len = 0, data = []\<rparr>),
        IndexReplace (7, 1) 2]"
proof -
  have h1: "objectMap server1 (7, 1) = Some \<lparr>addr = 0, pointee = object5\<rparr>"
    by (simp add: server1_def)
  have h2: "fst (storeData 0 7 1 noRules [] 0 0 server1) = Inr ()"
    by (simp add: storeData_def getTable_def server1_def noRules_def object5_def
        rejectOperation_def Let_def log_append_def log_free_def Log_append_def Log_free_def
        objectMap_replace_def)
  have h3: "storeData 0 7 1 noRules [] 0 0 server1 =
              (Inr (), fst (snd (storeData 0 7 1 noRules [] 0 0 server1)),
               snd (snd (storeData 0 7 1 noRules [] 0 0 server1)))"
    using h2 by (metis prod.collapse)
  have h4: "getSegmentId (log server1) 0 = 3" "trace server1 = []"
    "length (appended (log server1)) = 1"
    by (simp_all add: server1_def getSegmentId_def)
  show ?thesis
    using h1 h2 storeData_overwrite_order [OF h1 h3]
    by (simp add: h4 ObjectTombstone_ctor_def object5_def)
qed

subsection \<open>The tombstone written by remove\<close>

text \<open>
  C6. The claim is that the tombstone appended by an accepted remove of \<open>prev\<close> carries the id
  of the segment that held \<open>prev\<close> and the version of \<open>prev\<close>. Removing the object of
  \<open>server1\<close>, which the log holds in segment 3: the tombstone has the version of the object,
  and as its segment id whatever value the uninitialised field held.
\<close>

theorem remove_tombstone_segmentId:
  "fst (remove 0 uninit 7 1 noRules server1) = Inr ()
   \<and> appended (log (snd (snd (remove 0 uninit 7 1 noRules server1)))) =
       [LOG_ENTRY_TYPE_OBJ object5,
        LOG_ENTRY_TYPE_OBJTOMB
          \<lparr>segmentId = uninit, tableId = 7, objectId = 1, objectVersion = 5\<rparr>]
   \<and> getSegmentId (log server1) 0 = 3"
  by (simp add: remove_def getTable_def server1_def noRules_def object5_def
      rejectOperation_def Let_def log_append_def log_free_def Log_append_def Log_free_def
      objectMap_remove_def getSegmentId_def ObjectTombstone_ctor_def entrySize_def
      RaiseVersion_def)

subsection \<open>Segment replay\<close>

lemmas replay_defs = recoverEntry_def Let_def log_append_def log_free_def Log_append_def
  Log_free_def objectMap_replace_def objectMap_remove_def tombstoneMap_replace_def
  tombstoneMap_remove_def

lemma recoverEntry_both:
  assumes "entryKey e = Some k" "objectMap s k \<noteq> None" "tm k \<noteq> None"
  shows "recoverEntry e (s, tm) = Inl AssertionFailed"
  using assms by (auto simp: recoverEntry_def entryKey_def Let_def split: LogEntry.splits)

lemma recoverEntry_obj_applied:
  assumes "\<not> (objectMap s (table R, id_obj R) \<noteq> None \<and> tm (table R, id_obj R) \<noteq> None)"
    and "minSuccessor_obj (indexContents s (table R, id_obj R)) (tm (table R, id_obj R)) \<le> version R"
  shows "\<exists>st'. recoverEntry (LOG_ENTRY_TYPE_OBJ R) (s, tm) = Inr st'
     \<and> trace (fst st') \<noteq> trace s
     \<and> indexContents (fst st') = (indexContents s)((table R, id_obj R) \<mapsto> R)
     \<and> snd st' = tm((table R, id_obj R) := None)"
  using assms
  apply (simp add: replay_defs minSuccessor_obj_def indexContents_def split: option.splits prod.splits del: split_paired_Ex)
  apply (auto simp: fun_eq_iff indexContents_def)
  done

lemma recoverEntry_obj_skipped:
  assumes "\<not> (objectMap s (table R, id_obj R) \<noteq> None \<and> tm (table R, id_obj R) \<noteq> None)"
    and "\<not> minSuccessor_obj (indexContents s (table R, id_obj R)) (tm (table R, id_obj R)) \<le> version R"
  shows "recoverEntry (LOG_ENTRY_TYPE_OBJ R) (s, tm) = Inr (s, tm)"
  using assms
  by (auto simp: replay_defs minSuccessor_obj_def indexContents_def split: option.splits prod.splits)

lemma recoverEntry_tomb_applied:
  assumes "\<not> (objectMap s (tableId R, objectId R) \<noteq> None \<and> tm (tableId R, objectId R) \<noteq> None)"
    and "minSuccessor_tomb (indexContents s (tableId R, objectId R)) (tm (tableId R, objectId R)) \<le> objectVersion R"
  shows "\<exists>st'. recoverEntry (LOG_ENTRY_TYPE_OBJTOMB R) (s, tm) = Inr st'
     \<and> trace (fst st') \<noteq> trace s
     \<and> indexContents (fst st') = (indexContents s)((tableId R, objectId R) := None)
     \<and> snd st' = tm((tableId R, objectId R) \<mapsto> R)"
  using assms
  apply (simp add: replay_defs minSuccessor_tomb_def indexContents_def split: option.splits prod.splits del: split_paired_Ex)
  apply (auto simp: fun_eq_iff indexContents_def)
  done

lemma recoverEntry_tomb_skipped:
  assumes "\<not> (objectMap s (tableId R, objectId R) \<noteq> None \<and> tm (tableId R, objectId R) \<noteq> None)"
    and "\<not> minSuccessor_tomb (indexContents s (tableId R, objectId R)) (tm (tableId R, objectId R)) \<le> objectVersion R"
  shows "recoverEntry (LOG_ENTRY_TYPE_OBJTOMB R) (s, tm) = Inr (s, tm)"
  using assms
  by (auto simp: replay_defs minSuccessor_tomb_def indexContents_def split: option.splits prod.splits)

lemma recoverEntry_notBoth:
  assumes "notBoth st"
  shows "\<exists>st'. recoverEntry e st = Inr st' \<and> notBoth st'"
proof (cases st)
  case (Pair s tm)
  have nb: "\<And>k. \<not> (objectMap s k \<noteq> None \<and> tm k \<noteq> None)"
    using assms Pair unfolding notBoth_def by (metis fst_conv snd_conv)
  show ?thesis
  proof (cases e)
    case (LOG_ENTRY_TYPE_OBJ R)
    show ?thesis
    proof (cases "minSuccessor_obj (indexContents s (table R, id_obj R)) (tm (table R, id_obj R)) \<le> version R")
      case True
      from recoverEntry_obj_applied[where s=s and R=R and tm=tm, OF nb[of "(table R, id_obj R)"] True] obtain st' where
        st': "recoverEntry (LOG_ENTRY_TYPE_OBJ R) (s, tm) = Inr st'"
           "indexContents (fst st') = (indexContents s)((table R, id_obj R) \<mapsto> R)"
           "snd st' = tm((table R, id_obj R) := None)" by blast
      have "notBoth st'"
        unfolding notBoth_def
      proof (intro allI)
        fix k
        have "indexContents (fst st') k = None \<longleftrightarrow> objectMap (fst st') k = None"
          by (simp add: indexContents_def)
        moreover have "indexContents s k = None \<longleftrightarrow> objectMap s k = None"
          by (simp add: indexContents_def)
        ultimately show "\<not> (objectMap (fst st') k \<noteq> None \<and> snd st' k \<noteq> None)"
          using st'(2,3) nb[of k] by (cases "k = (table R, id_obj R)") auto
      qed
      then show ?thesis using st'(1) Pair LOG_ENTRY_TYPE_OBJ by simp
    next
      case False
      from recoverEntry_obj_skipped[where s=s and R=R and tm=tm, OF nb[of "(table R, id_obj R)"] False] show ?thesis
        using assms Pair LOG_ENTRY_TYPE_OBJ by simp
    qed
  next
    case (LOG_ENTRY_TYPE_OBJTOMB R)
    show ?thesis
    proof (cases "minSuccessor_tomb (indexContents s (tableId R, objectId R)) (tm (tableId R, objectId R)) \<le> objectVersion R")
      case True
      from recoverEntry_tomb_applied[where s=s and R=R and tm=tm, OF nb[of "(tableId R, objectId R)"] True] obtain st' where
        st': "recoverEntry (LOG_ENTRY_TYPE_OBJTOMB R) (s, tm) = Inr st'"
           "indexContents (fst st') = (indexContents s)((tableId R, objectId R) := None)"
           "snd st' = tm((tableId R, objectId R) \<mapsto> R)" by blast
      have "notBoth st'"
        unfolding notBoth_def
      proof (intro allI)
        fix k
        have "indexContents (fst st') k = None \<longleftrightarrow> objectMap (fst st') k = None"
          by (simp add: indexContents_def)
        moreover have "indexContents s k = None \<longleftrightarrow> objectMap s k = None"
          by (simp add: indexContents_def)
        ultimately show "\<not> (objectMap (fst st') k \<noteq> None \<and> snd st' k \<noteq> None)"
          using st'(2,3) nb[of k] by (cases "k = (tableId R, objectId R)") auto
      qed
      then show ?thesis using st'(1) Pair LOG_ENTRY_TYPE_OBJTOMB by simp
    next
      case False
      from recoverEntry_tomb_skipped[where s=s and R=R and tm=tm, OF nb[of "(tableId R, objectId R)"] False] show ?thesis
        using assms Pair LOG_ENTRY_TYPE_OBJTOMB by simp
    qed
  next
    case LOG_ENTRY_TYPE_OTHER
    then show ?thesis using assms Pair by (simp add: recoverEntry_def)
  qed
qed

lemma recoverSegment_notBoth:
  "notBoth st \<Longrightarrow> \<exists>st'. recoverSegment seg es st = Inr st' \<and> notBoth st'"
proof (induction es arbitrary: st)
  case Nil
  then show ?case by simp
next
  case (Cons e es)
  from recoverEntry_notBoth[OF Cons.prems, of e] obtain st1 where
    "recoverEntry e st = Inr st1" "notBoth st1" by blast
  with Cons.IH[of st1] show ?case by simp
qed

lemma recoverSegments_notBoth:
  "notBoth st \<Longrightarrow> \<exists>st'. recoverSegments segs st = Inr st' \<and> notBoth st'"
proof (induction segs arbitrary: st)
  case Nil
  then show ?case by simp
next
  case (Cons sg segs)
  from recoverSegment_notBoth[OF Cons.prems, of "fst sg" "snd sg"] obtain st1 where
    "recoverSegment (fst sg) (snd sg) st = Inr st1" "notBoth st1" by blast
  with Cons.IH[of st1] show ?case by simp
qed


lemma recoverEntry_Inr_notBoth_key:
  assumes "recoverEntry e (s, tm) = Inr st'" "entryKey e = Some k"
  shows "\<not> (objectMap s k \<noteq> None \<and> tm k \<noteq> None)"
proof
  assume "objectMap s k \<noteq> None \<and> tm k \<noteq> None"
  then have "recoverEntry e (s, tm) = Inl AssertionFailed"
    using assms(2) by (simp add: recoverEntry_both)
  with assms(1) show False by simp
qed

text \<open>
  C1 (as amended). In a replay state where no key has both an object and a tombstone (only
  such states occur during replay, C9), an OBJ record \<open>R\<close> is applied if and only if
  \<open>minSuccessor \<le> R.version\<close>, with \<open>minSuccessor = L ? L.version + 1 : (T ? T.objectVersion + 1 : 0)\<close>,
  and an OBJTOMB record if and only if \<open>minSuccessor \<le> R.objectVersion\<close>, with
  \<open>minSuccessor = L ? L.version : (T ? T.objectVersion + 1 : 0)\<close>; the additions are those of
  64-bit unsigned integers. An applied record is afterwards what its index holds for the
  key, and the other index holds nothing for the key; a skipped record changes nothing. A
  tombstone whose version equals that of the live object supersedes the object. An object
  whose version equals that of an existing tombstone is skipped when that version is not
  \<open>2^64 - 1\<close>.
\<close>

theorem replay_applies_iff_minSuccessor:
  assumes nb: "notBoth (s, tm)"
  shows
   "(\<exists>st'. recoverEntry (LOG_ENTRY_TYPE_OBJ R) (s, tm) = Inr st' \<and>
       (trace (fst st') \<noteq> trace s) =
         (minSuccessor_obj (indexContents s (table R, id_obj R)) (tm (table R, id_obj R))
            \<le> version R) \<and>
       (if minSuccessor_obj (indexContents s (table R, id_obj R)) (tm (table R, id_obj R))
             \<le> version R
        then indexContents (fst st') = (indexContents s)((table R, id_obj R) \<mapsto> R) \<and>
             snd st' = tm((table R, id_obj R) := None)
        else st' = (s, tm)))
    \<and> (\<exists>st'. recoverEntry (LOG_ENTRY_TYPE_OBJTOMB Rt) (s, tm) = Inr st' \<and>
       (trace (fst st') \<noteq> trace s) =
         (minSuccessor_tomb (indexContents s (tableId Rt, objectId Rt))
            (tm (tableId Rt, objectId Rt)) \<le> objectVersion Rt) \<and>
       (if minSuccessor_tomb (indexContents s (tableId Rt, objectId Rt))
             (tm (tableId Rt, objectId Rt)) \<le> objectVersion Rt
        then indexContents (fst st') = (indexContents s)((tableId Rt, objectId Rt) := None) \<and>
             snd st' = tm((tableId Rt, objectId Rt) \<mapsto> Rt)
        else st' = (s, tm)))
    \<and> (indexContents s (tableId Rt, objectId Rt) = Some l \<and> objectVersion Rt = version l \<longrightarrow>
         (\<exists>st'. recoverEntry (LOG_ENTRY_TYPE_OBJTOMB Rt) (s, tm) = Inr st' \<and>
            indexContents (fst st') (tableId Rt, objectId Rt) = None \<and>
            snd st' (tableId Rt, objectId Rt) = Some Rt))
    \<and> (tm (table R, id_obj R) = Some t \<and> version R = objectVersion t \<and>
         objectVersion t \<noteq> - 1 \<longrightarrow>
         recoverEntry (LOG_ENTRY_TYPE_OBJ R) (s, tm) = Inr (s, tm))"
proof -
  have nbk: "\<And>k. \<not> (objectMap s k \<noteq> None \<and> tm k \<noteq> None)"
    using nb unfolding notBoth_def by (metis fst_conv snd_conv)
  let ?kO = "(table R, id_obj R)" and ?kT = "(tableId Rt, objectId Rt)"
  have A: "\<exists>st'. recoverEntry (LOG_ENTRY_TYPE_OBJ R) (s, tm) = Inr st' \<and>
       (trace (fst st') \<noteq> trace s) =
         (minSuccessor_obj (indexContents s ?kO) (tm ?kO) \<le> version R) \<and>
       (if minSuccessor_obj (indexContents s ?kO) (tm ?kO) \<le> version R
        then indexContents (fst st') = (indexContents s)(?kO \<mapsto> R) \<and>
             snd st' = tm(?kO := None)
        else st' = (s, tm))"
  proof (cases "minSuccessor_obj (indexContents s ?kO) (tm ?kO) \<le> version R")
    case True
    from recoverEntry_obj_applied[where s=s and R=R and tm=tm, OF nbk True]
    show ?thesis using True by auto
  next
    case False
    from recoverEntry_obj_skipped[where s=s and R=R and tm=tm, OF nbk False]
    show ?thesis using False by simp
  qed
  have B: "\<exists>st'. recoverEntry (LOG_ENTRY_TYPE_OBJTOMB Rt) (s, tm) = Inr st' \<and>
       (trace (fst st') \<noteq> trace s) =
         (minSuccessor_tomb (indexContents s ?kT) (tm ?kT) \<le> objectVersion Rt) \<and>
       (if minSuccessor_tomb (indexContents s ?kT) (tm ?kT) \<le> objectVersion Rt
        then indexContents (fst st') = (indexContents s)(?kT := None) \<and>
             snd st' = tm(?kT \<mapsto> Rt)
        else st' = (s, tm))"
  proof (cases "minSuccessor_tomb (indexContents s ?kT) (tm ?kT) \<le> objectVersion Rt")
    case True
    from recoverEntry_tomb_applied[where s=s and R=Rt and tm=tm, OF nbk True]
    show ?thesis using True by auto
  next
    case False
    from recoverEntry_tomb_skipped[where s=s and R=Rt and tm=tm, OF nbk False]
    show ?thesis using False by simp
  qed
  have C: "indexContents s ?kT = Some l \<and> objectVersion Rt = version l \<longrightarrow>
         (\<exists>st'. recoverEntry (LOG_ENTRY_TYPE_OBJTOMB Rt) (s, tm) = Inr st' \<and>
            indexContents (fst st') ?kT = None \<and> snd st' ?kT = Some Rt)"
  proof
    assume h: "indexContents s ?kT = Some l \<and> objectVersion Rt = version l"
    then have "minSuccessor_tomb (indexContents s ?kT) (tm ?kT) \<le> objectVersion Rt"
      by (simp add: minSuccessor_tomb_def)
    from recoverEntry_tomb_applied[where s=s and R=Rt and tm=tm, OF nbk this]
    show "\<exists>st'. recoverEntry (LOG_ENTRY_TYPE_OBJTOMB Rt) (s, tm) = Inr st' \<and>
            indexContents (fst st') ?kT = None \<and> snd st' ?kT = Some Rt"
      by auto
  qed
  have D: "tm ?kO = Some t \<and> version R = objectVersion t \<and> objectVersion t \<noteq> - 1 \<longrightarrow>
         recoverEntry (LOG_ENTRY_TYPE_OBJ R) (s, tm) = Inr (s, tm)"
  proof
    assume h: "tm ?kO = Some t \<and> version R = objectVersion t \<and> objectVersion t \<noteq> - 1"
    with nbk[of ?kO] have "indexContents s ?kO = None"
      by (simp add: indexContents_def)
    with h have "\<not> minSuccessor_obj (indexContents s ?kO) (tm ?kO) \<le> version R"
      using inc_less_eq_self_iff_eq[of "objectVersion t"]
      by (auto simp: minSuccessor_obj_def)
    from recoverEntry_obj_skipped[where s=s and R=R and tm=tm, OF nbk this]
    show "recoverEntry (LOG_ENTRY_TYPE_OBJ R) (s, tm) = Inr (s, tm)" .
  qed
  from A B C D show ?thesis by blast
qed

theorem replay_applies_iff_minSuccessor_witness:
  "notBoth (server1, tombstones9)
   \<and> indexContents server1 (tableId tombstone5, objectId tombstone5) = Some object5
   \<and> objectVersion tombstone5 = version object5
   \<and> tombstones9 (table object9, id_obj object9) = Some tombstone9
   \<and> version object9 = objectVersion tombstone9
   \<and> objectVersion tombstone9 \<noteq> - 1
   \<and> recoverEntry (LOG_ENTRY_TYPE_OBJ object9) (server1, tombstones9)
        = Inr (server1, tombstones9)
   \<and> \<not> isl (recoverEntry (LOG_ENTRY_TYPE_OBJTOMB tombstone5) (server1, tombstones9))
   \<and> indexContents (fst (projr (recoverEntry (LOG_ENTRY_TYPE_OBJTOMB tombstone5)
        (server1, tombstones9)))) (7, 1) = None
   \<and> snd (projr (recoverEntry (LOG_ENTRY_TYPE_OBJTOMB tombstone5)
        (server1, tombstones9))) (7, 1) = Some tombstone5"
proof -
  have nb: "notBoth (server1, tombstones9)"
    by (auto simp: notBoth_def server1_def tombstones9_def)
  have hC: "indexContents server1 (tableId tombstone5, objectId tombstone5) = Some object5
            \<and> objectVersion tombstone5 = version object5"
    by (simp add: indexContents_def server1_def tombstone5_def object5_def)
  have hD: "tombstones9 (table object9, id_obj object9) = Some tombstone9
            \<and> version object9 = objectVersion tombstone9 \<and> objectVersion tombstone9 \<noteq> - 1"
    by (simp add: tombstones9_def object9_def tombstone9_def)
  have k: "(tableId tombstone5, objectId tombstone5) = (7, 1)"
    by (simp add: tombstone5_def)
  from replay_applies_iff_minSuccessor
         [OF nb, where R=object9 and Rt=tombstone5 and l=object5 and t=tombstone9] hC hD
  have "(\<exists>st'. recoverEntry (LOG_ENTRY_TYPE_OBJTOMB tombstone5) (server1, tombstones9) = Inr st'
           \<and> indexContents (fst st') (tableId tombstone5, objectId tombstone5) = None
           \<and> snd st' (tableId tombstone5, objectId tombstone5) = Some tombstone5)
        \<and> recoverEntry (LOG_ENTRY_TYPE_OBJ object9) (server1, tombstones9)
            = Inr (server1, tombstones9)"
    by blast
  then show ?thesis using nb hC hD unfolding k by auto
qed

text \<open>
  The object of key (7, 2) and version \<open>2^64 - 1\<close> is replayed into a state whose
  recovery-tombstone index holds a tombstone of the same key and version, and whose object
  index holds nothing for the key: the object is not skipped, it replaces the tombstone.
\<close>

theorem replay_max_version_counterexample:
  "tombstones1 (table objectMax, id_obj objectMax) = Some tombstoneMax
   \<and> objectMap server1 (table objectMax, id_obj objectMax) = None
   \<and> version objectMax = objectVersion tombstoneMax
   \<and> \<not> isl (recoverEntry (LOG_ENTRY_TYPE_OBJ objectMax) (server1, tombstones1))
   \<and> indexContents (fst (projr (recoverEntry (LOG_ENTRY_TYPE_OBJ objectMax)
        (server1, tombstones1)))) (7, 2) = Some objectMax
   \<and> snd (projr (recoverEntry (LOG_ENTRY_TYPE_OBJ objectMax) (server1, tombstones1))) (7, 2)
        = None"
  by (simp add: replay_defs server1_def tombstones1_def objectMax_def tombstoneMax_def
       indexContents_def entrySize_def)


lemma indexContents_None: "indexContents s k = None \<longleftrightarrow> objectMap s k = None"
  by (simp add: indexContents_def)

lemma recoverEntry_obj_reestablishes:
  assumes r: "recoverEntry (LOG_ENTRY_TYPE_OBJ R) (s, tm) = Inr st'"
      and tr: "trace (fst st') \<noteq> trace s"
  shows "objectMap (fst st') (table R, id_obj R) \<noteq> None \<and> snd st' (table R, id_obj R) = None"
proof -
  let ?k = "(table R, id_obj R)"
  have nbk: "\<not> (objectMap s ?k \<noteq> None \<and> tm ?k \<noteq> None)"
    using r by (rule recoverEntry_Inr_notBoth_key) (simp add: entryKey_def)
  show ?thesis
  proof (cases "minSuccessor_obj (indexContents s ?k) (tm ?k) \<le> version R")
    case True
    from recoverEntry_obj_applied[where s=s and R=R and tm=tm, OF nbk True] r
    have "indexContents (fst st') = (indexContents s)(?k \<mapsto> R)" "snd st' = tm(?k := None)"
      by auto
    then have "indexContents (fst st') ?k \<noteq> None" "snd st' ?k = None" by simp_all
    then show ?thesis by (simp add: indexContents_None)
  next
    case False
    from recoverEntry_obj_skipped[where s=s and R=R and tm=tm, OF nbk False] r tr
    show ?thesis by simp
  qed
qed

lemma recoverEntry_tomb_reestablishes:
  assumes r: "recoverEntry (LOG_ENTRY_TYPE_OBJTOMB R) (s, tm) = Inr st'"
      and tr: "trace (fst st') \<noteq> trace s"
  shows "objectMap (fst st') (tableId R, objectId R) = None \<and> snd st' (tableId R, objectId R) \<noteq> None"
proof -
  let ?k = "(tableId R, objectId R)"
  have nbk: "\<not> (objectMap s ?k \<noteq> None \<and> tm ?k \<noteq> None)"
    using r by (rule recoverEntry_Inr_notBoth_key) (simp add: entryKey_def)
  show ?thesis
  proof (cases "minSuccessor_tomb (indexContents s ?k) (tm ?k) \<le> objectVersion R")
    case True
    from recoverEntry_tomb_applied[where s=s and R=R and tm=tm, OF nbk True] r
    have "indexContents (fst st') = (indexContents s)(?k := None)" "snd st' = tm(?k \<mapsto> R)"
      by auto
    then have "indexContents (fst st') ?k = None" "snd st' ?k \<noteq> None" by simp_all
    then show ?thesis by (simp add: indexContents_None)
  next
    case False
    from recoverEntry_tomb_skipped[where s=s and R=R and tm=tm, OF nbk False] r tr
    show ?thesis by simp
  qed
qed

text \<open>
  C9. No key has both an object in the object index and a tombstone in the
  recovery-tombstone index at any point of a replay. The processing of a record checks it
  for the key of the record, and a violation is fatal; an applied OBJ step leaves the key
  with an object and no tombstone, an applied OBJTOMB step with a tombstone and no object;
  from a state where it holds, every step and every replay of a segment succeeds and ends in
  a state where it holds; and it holds throughout a recovery, which starts with an empty
  recovery-tombstone index.
\<close>

theorem replay_never_both:
  "(entryKey e = Some k \<and> objectMap s k \<noteq> None \<and> tm k \<noteq> None \<longrightarrow>
      recoverEntry e (s, tm) = Inl AssertionFailed)
   \<and> (recoverEntry (LOG_ENTRY_TYPE_OBJ R) (sa, tma) = Inr sta \<and> trace (fst sta) \<noteq> trace sa \<longrightarrow>
        objectMap (fst sta) (table R, id_obj R) \<noteq> None \<and> snd sta (table R, id_obj R) = None)
   \<and> (recoverEntry (LOG_ENTRY_TYPE_OBJTOMB Rt) (sb, tmb) = Inr stb \<and>
        trace (fst stb) \<noteq> trace sb \<longrightarrow>
        objectMap (fst stb) (tableId Rt, objectId Rt) = None \<and>
        snd stb (tableId Rt, objectId Rt) \<noteq> None)
   \<and> (notBoth st \<longrightarrow> (\<exists>st'. recoverEntry e' st = Inr st' \<and> notBoth st'))
   \<and> (notBoth st \<longrightarrow> (\<exists>st'. recoverSegment seg es st = Inr st' \<and> notBoth st'))
   \<and> (\<exists>st'. recoverSegments segs (sc, Map.empty) = Inr st' \<and> notBoth st')"
proof -
  have "notBoth (sc, Map.empty)" by (simp add: notBoth_def)
  then have "\<exists>st'. recoverSegments segs (sc, Map.empty) = Inr st' \<and> notBoth st'"
    by (rule recoverSegments_notBoth)
  then show ?thesis
    using recoverEntry_both[where e=e and k=k and s=s and tm=tm]
      recoverEntry_obj_reestablishes[where R=R and s=sa and tm=tma and st'=sta]
      recoverEntry_tomb_reestablishes[where R=Rt and s=sb and tm=tmb and st'=stb]
      recoverEntry_notBoth[where st=st and e=e']
      recoverSegment_notBoth[where st=st and seg=seg and es=es]
    by blast
qed


theorem replay_never_both_witness:
  "entryKey (LOG_ENTRY_TYPE_OBJ object5) = Some (7, 1)
   \<and> objectMap server1 (7, 1) \<noteq> None \<and> tombstones5 (7, 1) \<noteq> None
   \<and> recoverEntry (LOG_ENTRY_TYPE_OBJ object5) (server1, tombstones5)
        = Inl AssertionFailed
   \<and> \<not> isl (recoverEntry (LOG_ENTRY_TYPE_OBJ object9) (server1, Map.empty))
   \<and> trace (fst (projr (recoverEntry (LOG_ENTRY_TYPE_OBJ object9) (server1, Map.empty))))
        \<noteq> trace server1
   \<and> objectMap (fst (projr (recoverEntry (LOG_ENTRY_TYPE_OBJ object9) (server1, Map.empty))))
        (table object9, id_obj object9) \<noteq> None
   \<and> snd (projr (recoverEntry (LOG_ENTRY_TYPE_OBJ object9) (server1, Map.empty)))
        (table object9, id_obj object9) = None
   \<and> \<not> isl (recoverEntry (LOG_ENTRY_TYPE_OBJTOMB tombstone5) (server1, Map.empty))
   \<and> trace (fst (projr (recoverEntry (LOG_ENTRY_TYPE_OBJTOMB tombstone5)
        (server1, Map.empty)))) \<noteq> trace server1
   \<and> objectMap (fst (projr (recoverEntry (LOG_ENTRY_TYPE_OBJTOMB tombstone5)
        (server1, Map.empty)))) (tableId tombstone5, objectId tombstone5) = None
   \<and> snd (projr (recoverEntry (LOG_ENTRY_TYPE_OBJTOMB tombstone5) (server1, Map.empty)))
        (tableId tombstone5, objectId tombstone5) \<noteq> None
   \<and> notBoth (server1, tombstones9)
   \<and> \<not> isl (recoverEntry (LOG_ENTRY_TYPE_OBJTOMB tombstone5) (server1, tombstones9))
   \<and> notBoth (projr (recoverEntry (LOG_ENTRY_TYPE_OBJTOMB tombstone5) (server1, tombstones9)))
   \<and> \<not> isl (recoverSegment 3 [LOG_ENTRY_TYPE_OBJTOMB tombstone5, LOG_ENTRY_TYPE_OBJ object9]
        (server1, tombstones9))
   \<and> notBoth (projr (recoverSegment 3
        [LOG_ENTRY_TYPE_OBJTOMB tombstone5, LOG_ENTRY_TYPE_OBJ object9] (server1, tombstones9)))"
proof -
  let ?r1 = "recoverEntry (LOG_ENTRY_TYPE_OBJ object9) (server1, Map.empty)"
  let ?r2 = "recoverEntry (LOG_ENTRY_TYPE_OBJTOMB tombstone5) (server1, Map.empty)"
  let ?r3 = "recoverEntry (LOG_ENTRY_TYPE_OBJTOMB tombstone5) (server1, tombstones9)"
  let ?r4 = "recoverSegment 3 [LOG_ENTRY_TYPE_OBJTOMB tombstone5, LOG_ENTRY_TYPE_OBJ object9]
               (server1, tombstones9)"
  have h0: "entryKey (LOG_ENTRY_TYPE_OBJ object5) = Some (7, 1) \<and>
            objectMap server1 (7, 1) \<noteq> None \<and> tombstones5 (7, 1) \<noteq> None"
    by (simp add: entryKey_def object5_def server1_def tombstones5_def)
  have i1: "?r1 = Inr (projr ?r1) \<and> trace (fst (projr ?r1)) \<noteq> trace server1"
    by (simp add: replay_defs server1_def object9_def)
  have i2: "?r2 = Inr (projr ?r2) \<and> trace (fst (projr ?r2)) \<noteq> trace server1"
    by (simp add: replay_defs server1_def tombstone5_def object5_def)
  have nb: "notBoth (server1, tombstones9)"
    by (auto simp: notBoth_def server1_def tombstones9_def)
  note inst = replay_never_both
    [where e="LOG_ENTRY_TYPE_OBJ object5" and k="(7, 1)" and s=server1 and tm=tombstones5
       and R=object9 and sa=server1 and tma=Map.empty and sta="projr ?r1"
       and Rt=tombstone5 and sb=server1 and tmb=Map.empty and stb="projr ?r2"
       and st="(server1, tombstones9)" and e'="LOG_ENTRY_TYPE_OBJTOMB tombstone5"
       and seg=3 and es="[LOG_ENTRY_TYPE_OBJTOMB tombstone5, LOG_ENTRY_TYPE_OBJ object9]"
       and segs="[]" and sc=server1]
  from inst h0 have c0: "recoverEntry (LOG_ENTRY_TYPE_OBJ object5) (server1, tombstones5)
      = Inl AssertionFailed" by blast
  from inst i1 have c1: "objectMap (fst (projr ?r1)) (table object9, id_obj object9) \<noteq> None
      \<and> snd (projr ?r1) (table object9, id_obj object9) = None" by blast
  from inst i2 have c2: "objectMap (fst (projr ?r2)) (tableId tombstone5, objectId tombstone5) = None
      \<and> snd (projr ?r2) (tableId tombstone5, objectId tombstone5) \<noteq> None" by blast
  from inst nb have c3: "\<exists>st'. ?r3 = Inr st' \<and> notBoth st'" by blast
  from inst nb have c4: "\<exists>st'. ?r4 = Inr st' \<and> notBoth st'" by blast
  have i1': "\<not> isl ?r1" using i1 by (metis sum.disc(2))
  have i2': "\<not> isl ?r2" using i2 by (metis sum.disc(2))
  have c3': "\<not> isl ?r3 \<and> notBoth (projr ?r3)" using c3 by auto
  have c4': "\<not> isl ?r4 \<and> notBoth (projr ?r4)" using c4 by auto
  show ?thesis
    using h0 c0 i1 i1' c1 i2 i2' c2 nb c3' c4' by blast
qed

subsection \<open>Order independence of the replay\<close>

lemma maxVersionMerge_commute:
  assumes "isObject e1 = isObject e2 \<and> entryKey e1 = entryKey e2 \<and>
        entryVersion e1 = entryVersion e2 \<longrightarrow> e1 = e2"
  shows "maxVersionMerge e1 (maxVersionMerge e2 c) = maxVersionMerge e2 (maxVersionMerge e1 c)"
  using assms
  apply (cases e1; cases e2)
  apply (auto simp: maxVersionMerge_def isObject_def entryKey_def entryVersion_def fun_eq_iff split: Cell.splits)
  done


lemma cells_alt:
  "cells (s, tm) k = (case indexContents s k of Some l \<Rightarrow> Obj l
                      | None \<Rightarrow> (case tm k of Some t \<Rightarrow> Tomb t | None \<Rightarrow> Empty))"
  by (simp add: cells_def indexContents_def split: option.splits)

lemma belowMax_alt:
  "belowMax (s, tm) \<longleftrightarrow>
     (\<forall>k. (\<forall>l. indexContents s k = Some l \<longrightarrow> version l \<noteq> - 1) \<and>
          (\<forall>t. tm k = Some t \<longrightarrow> objectVersion t \<noteq> - 1))"
  by (auto simp: belowMax_def indexContents_def)

lemma notBoth_alt:
  "notBoth (s, tm) \<longleftrightarrow> (\<forall>k. indexContents s k = None \<or> tm k = None)"
  by (auto simp: notBoth_def indexContents_def)

lemma recoverEntry_refines:
  assumes nb: "notBoth st" and bm: "belowMax st" and ev: "entryVersion e \<noteq> Some (- 1)"
  shows "\<exists>st'. recoverEntry e st = Inr st' \<and> cells st' = maxVersionMerge e (cells st)
            \<and> notBoth st' \<and> belowMax st'"
proof (cases st)
  case (Pair s tm)
  have nbk: "\<And>k. \<not> (objectMap s k \<noteq> None \<and> tm k \<noteq> None)"
    using nb Pair unfolding notBoth_def by (metis fst_conv snd_conv)
  have nbk': "\<And>k. indexContents s k = None \<or> tm k = None"
    using nb unfolding Pair notBoth_alt by (rule spec)
  have bmk: "\<And>k l. indexContents s k = Some l \<Longrightarrow> version l \<noteq> - 1"
      "\<And>k t. tm k = Some t \<Longrightarrow> objectVersion t \<noteq> - 1"
    using bm Pair by (auto simp: belowMax_alt)
  show ?thesis
  proof (cases e)
    case (LOG_ENTRY_TYPE_OBJ R)
    let ?k = "(table R, id_obj R)"
    have vR: "version R \<noteq> - 1" using ev LOG_ENTRY_TYPE_OBJ by (simp add: entryVersion_def)
    have test: "(minSuccessor_obj (indexContents s ?k) (tm ?k) \<le> version R) =
        (case cells (s, tm) ?k of Empty \<Rightarrow> True | Obj l \<Rightarrow> version l < version R
           | Tomb t \<Rightarrow> objectVersion t < version R)"
      using bmk(1)[of ?k] bmk(2)[of ?k]
      by (auto simp: minSuccessor_obj_def cells_alt inc_less_eq_iff split: option.splits)
    show ?thesis
    proof (cases "minSuccessor_obj (indexContents s ?k) (tm ?k) \<le> version R")
      case True
      from recoverEntry_obj_applied[where s=s and R=R and tm=tm, OF nbk True] obtain st' where
        st': "recoverEntry (LOG_ENTRY_TYPE_OBJ R) (s, tm) = Inr st'"
           "indexContents (fst st') = (indexContents s)(?k \<mapsto> R)"
           "snd st' = tm(?k := None)" by blast
      obtain s' tm' where p: "st' = (s', tm')" by (cases st')
      have ic: "indexContents s' = (indexContents s)(?k \<mapsto> R)"
        and tm': "tm' = tm(?k := None)"
        using st'(2,3) p by simp_all
      have c: "cells st' = maxVersionMerge e (cells st)"
      proof (rule ext)
        fix k
        have lhs: "cells st' k = (if k = ?k then Obj R else cells (s, tm) k)"
          unfolding p by (auto simp: cells_alt ic tm' split: option.splits)
        have rhs: "maxVersionMerge e (cells st) k = (if k = ?k then Obj R else cells (s, tm) k)"
          using True test unfolding Pair LOG_ENTRY_TYPE_OBJ by (simp add: maxVersionMerge_def)
        show "cells st' k = maxVersionMerge e (cells st) k" by (simp only: lhs rhs)
      qed
      have n: "notBoth st'"
        unfolding p notBoth_alt
      proof
        fix k show "indexContents s' k = None \<or> tm' k = None"
          using nbk'[of k] by (simp add: ic tm')
      qed
      have b: "belowMax st'"
        unfolding p belowMax_alt
      proof
        fix k
        show "(\<forall>l. indexContents s' k = Some l \<longrightarrow> version l \<noteq> - 1) \<and>
              (\<forall>t. tm' k = Some t \<longrightarrow> objectVersion t \<noteq> - 1)"
          using bmk(1)[of k] bmk(2)[of k] vR by (simp add: ic tm')
      qed
      show ?thesis using st'(1) c n b Pair LOG_ENTRY_TYPE_OBJ by simp
    next
      case False
      from recoverEntry_obj_skipped[where s=s and R=R and tm=tm, OF nbk False]
      show ?thesis using nb bm False test Pair LOG_ENTRY_TYPE_OBJ
        by (simp add: maxVersionMerge_def)
    qed
  next
    case (LOG_ENTRY_TYPE_OBJTOMB R)
    let ?k = "(tableId R, objectId R)"
    have vR: "objectVersion R \<noteq> - 1"
      using ev LOG_ENTRY_TYPE_OBJTOMB by (simp add: entryVersion_def)
    have test: "(minSuccessor_tomb (indexContents s ?k) (tm ?k) \<le> objectVersion R) =
        (case cells (s, tm) ?k of Empty \<Rightarrow> True | Obj l \<Rightarrow> version l \<le> objectVersion R
           | Tomb t \<Rightarrow> objectVersion t < objectVersion R)"
      using bmk(1)[of ?k] bmk(2)[of ?k]
      by (auto simp: minSuccessor_tomb_def cells_alt inc_less_eq_iff split: option.splits)
    show ?thesis
    proof (cases "minSuccessor_tomb (indexContents s ?k) (tm ?k) \<le> objectVersion R")
      case True
      from recoverEntry_tomb_applied[where s=s and R=R and tm=tm, OF nbk True] obtain st' where
        st': "recoverEntry (LOG_ENTRY_TYPE_OBJTOMB R) (s, tm) = Inr st'"
           "indexContents (fst st') = (indexContents s)(?k := None)"
           "snd st' = tm(?k \<mapsto> R)" by blast
      obtain s' tm' where p: "st' = (s', tm')" by (cases st')
      have ic: "indexContents s' = (indexContents s)(?k := None)"
        and tm': "tm' = tm(?k \<mapsto> R)"
        using st'(2,3) p by simp_all
      have c: "cells st' = maxVersionMerge e (cells st)"
      proof (rule ext)
        fix k
        have lhs: "cells st' k = (if k = ?k then Tomb R else cells (s, tm) k)"
          unfolding p by (auto simp: cells_alt ic tm' split: option.splits)
        have rhs: "maxVersionMerge e (cells st) k = (if k = ?k then Tomb R else cells (s, tm) k)"
          using True test unfolding Pair LOG_ENTRY_TYPE_OBJTOMB by (simp add: maxVersionMerge_def)
        show "cells st' k = maxVersionMerge e (cells st) k" by (simp only: lhs rhs)
      qed
      have n: "notBoth st'"
        unfolding p notBoth_alt
      proof
        fix k show "indexContents s' k = None \<or> tm' k = None"
          using nbk'[of k] by (simp add: ic tm')
      qed
      have b: "belowMax st'"
        unfolding p belowMax_alt
      proof
        fix k
        show "(\<forall>l. indexContents s' k = Some l \<longrightarrow> version l \<noteq> - 1) \<and>
              (\<forall>t. tm' k = Some t \<longrightarrow> objectVersion t \<noteq> - 1)"
          using bmk(1)[of k] bmk(2)[of k] vR by (simp add: ic tm')
      qed
      show ?thesis using st'(1) c n b Pair LOG_ENTRY_TYPE_OBJTOMB by simp
    next
      case False
      from recoverEntry_tomb_skipped[where s=s and R=R and tm=tm, OF nbk False]
      show ?thesis using nb bm False test Pair LOG_ENTRY_TYPE_OBJTOMB
        by (simp add: maxVersionMerge_def)
    qed
  next
    case LOG_ENTRY_TYPE_OTHER
    then show ?thesis using nb bm by (simp add: recoverEntry_def maxVersionMerge_def split: prod.splits)
  qed
qed

lemma recoverSegment_refines:
  assumes "notBoth st" "belowMax st" "\<forall>e \<in> set es. entryVersion e \<noteq> Some (- 1)"
  shows "\<exists>st'. recoverSegment seg es st = Inr st' \<and> cells st' = fold maxVersionMerge es (cells st)
            \<and> notBoth st' \<and> belowMax st'"
  using assms
proof (induction es arbitrary: st)
  case Nil
  then show ?case by simp
next
  case (Cons e es)
  from Cons.prems have "entryVersion e \<noteq> Some (- 1)" by simp
  from recoverEntry_refines[OF Cons.prems(1,2) this] obtain st1 where
    s1: "recoverEntry e st = Inr st1" "cells st1 = maxVersionMerge e (cells st)"
        "notBoth st1" "belowMax st1" by blast
  from Cons.IH[OF s1(3,4)] Cons.prems(3) obtain st' where
    "recoverSegment seg es st1 = Inr st'" "cells st' = fold maxVersionMerge es (cells st1)"
    "notBoth st'" "belowMax st'" by auto
  with s1 show ?case by simp
qed

lemma recoverSegments_refines:
  assumes "notBoth st" "belowMax st"
    "\<forall>e \<in> set (concat (map snd segs)). entryVersion e \<noteq> Some (- 1)"
  shows "\<exists>st'. recoverSegments segs st = Inr st'
            \<and> cells st' = fold maxVersionMerge (concat (map snd segs)) (cells st)
            \<and> notBoth st' \<and> belowMax st'"
  using assms
proof (induction segs arbitrary: st)
  case Nil
  then show ?case by simp
next
  case (Cons sg segs)
  from Cons.prems have "\<forall>e \<in> set (snd sg). entryVersion e \<noteq> Some (- 1)" by simp
  from recoverSegment_refines[OF Cons.prems(1,2) this, of "fst sg"] obtain st1 where
    s1: "recoverSegment (fst sg) (snd sg) st = Inr st1"
        "cells st1 = fold maxVersionMerge (snd sg) (cells st)"
        "notBoth st1" "belowMax st1" by blast
  from Cons.IH[OF s1(3,4)] Cons.prems(3) obtain st' where
    "recoverSegments segs st1 = Inr st'"
    "cells st' = fold maxVersionMerge (concat (map snd segs)) (cells st1)"
    "notBoth st'" "belowMax st'" by auto
  with s1 show ?case by simp
qed

lemma cells_determine_contents:
  assumes "cells st = cells st'" "notBoth st" "notBoth st'"
  shows "replayContents st = replayContents st'"
proof -
  obtain s tm s' tm' where p: "st = (s, tm)" "st' = (s', tm')" by (cases st; cases st') auto
  have a: "\<And>k. indexContents s k = (case cells st k of Obj l \<Rightarrow> Some l | _ \<Rightarrow> None)"
    unfolding p by (auto simp: cells_alt split: option.splits)
  have a': "\<And>k. indexContents s' k = (case cells st' k of Obj l \<Rightarrow> Some l | _ \<Rightarrow> None)"
    unfolding p by (auto simp: cells_alt split: option.splits)
  have n: "\<And>k. indexContents s k = None \<or> tm k = None"
    using assms(2) unfolding p notBoth_alt by (rule spec)
  have n': "\<And>k. indexContents s' k = None \<or> tm' k = None"
    using assms(3) unfolding p notBoth_alt by (rule spec)
  have b: "\<And>k. tm k = (case cells st k of Tomb t \<Rightarrow> Some t | _ \<Rightarrow> None)"
  proof -
    fix k show "tm k = (case cells st k of Tomb t \<Rightarrow> Some t | _ \<Rightarrow> None)"
      using n[of k] unfolding p cells_alt by (auto split: option.splits)
  qed
  have b': "\<And>k. tm' k = (case cells st' k of Tomb t \<Rightarrow> Some t | _ \<Rightarrow> None)"
  proof -
    fix k show "tm' k = (case cells st' k of Tomb t \<Rightarrow> Some t | _ \<Rightarrow> None)"
      using n'[of k] unfolding p cells_alt by (auto split: option.splits)
  qed
  have "indexContents s = indexContents s'" using a a' assms(1) by (auto simp: fun_eq_iff)
  moreover have "tm = tm'" using b b' assms(1) by (auto simp: fun_eq_iff)
  ultimately show ?thesis by (simp add: replayContents_def p)
qed

text \<open>
  C4 (as amended). Two streams of segments that hold the same records (one is any
  permutation of the other, in particular one that respects the segment boundaries),
  replayed from the same state, both succeed and leave the same contents in the object
  index and in the recovery-tombstone index, provided that the state has no key with both an
  object and a tombstone, that no version in the state or in the stream is \<open>2^64 - 1\<close>,
  and that two records of the stream with the same type, key and version are the same
  record.
\<close>

theorem replay_order_independent:
  assumes nb: "notBoth st" and bm: "belowMax st"
      and vs: "\<forall>e \<in> set (concat (map snd segsA)). entryVersion e \<noteq> Some (- 1)"
      and one: "oneRecordPerVersion (concat (map snd segsA))"
      and perm: "mset (concat (map snd segsA)) = mset (concat (map snd segsB))"
  shows "\<exists>stA stB. recoverSegments segsA st = Inr stA \<and> recoverSegments segsB st = Inr stB
            \<and> replayContents stA = replayContents stB"
proof -
  let ?A = "concat (map snd segsA)" and ?B = "concat (map snd segsB)"
  have setAB: "set ?A = set ?B" using perm by (rule mset_eq_setD)
  from recoverSegments_refines[OF nb bm vs] obtain stA where
    A: "recoverSegments segsA st = Inr stA" "cells stA = fold maxVersionMerge ?A (cells st)"
       "notBoth stA" by blast
  have vsB: "\<forall>e \<in> set ?B. entryVersion e \<noteq> Some (- 1)" using vs setAB by blast
  from recoverSegments_refines[OF nb bm vsB] obtain stB where
    B: "recoverSegments segsB st = Inr stB" "cells stB = fold maxVersionMerge ?B (cells st)"
       "notBoth stB" by blast
  have comm: "\<And>x y. x \<in> set ?A \<Longrightarrow> y \<in> set ?A \<Longrightarrow>
      maxVersionMerge x \<circ> maxVersionMerge y = maxVersionMerge y \<circ> maxVersionMerge x"
  proof -
    fix x y assume "x \<in> set ?A" "y \<in> set ?A"
    with one have "isObject x = isObject y \<and> entryKey x = entryKey y \<and>
        entryVersion x = entryVersion y \<longrightarrow> x = y"
      unfolding oneRecordPerVersion_def by blast
    then have "\<And>c. maxVersionMerge x (maxVersionMerge y c) =
        maxVersionMerge y (maxVersionMerge x c)"
      by (rule maxVersionMerge_commute)
    then show "maxVersionMerge x \<circ> maxVersionMerge y = maxVersionMerge y \<circ> maxVersionMerge x"
      by (simp add: comp_def)
  qed
  have "fold maxVersionMerge ?A = fold maxVersionMerge ?B"
    using comm perm by (rule fold_multiset_equiv)
  then have "cells stA = cells stB" using A(2) B(2) by simp
  then have "replayContents stA = replayContents stB"
    using A(3) B(3) by (rule cells_determine_contents)
  with A(1) B(1) show ?thesis by blast
qed


theorem replay_order_independent_witness:
  "notBoth (server1, Map.empty) \<and> belowMax (server1, Map.empty)
   \<and> entryVersion (LOG_ENTRY_TYPE_OBJ object9) \<noteq> Some (- 1)
   \<and> entryVersion (LOG_ENTRY_TYPE_OBJTOMB tombstone5) \<noteq> Some (- 1)
   \<and> entryVersion (LOG_ENTRY_TYPE_OBJTOMB tombstone9) \<noteq> Some (- 1)
   \<and> oneRecordPerVersion (concat (map snd stream1))
   \<and> mset (concat (map snd stream1)) = mset (concat (map snd stream1_permuted))
   \<and> \<not> isl (recoverSegments stream1 (server1, Map.empty))
   \<and> \<not> isl (recoverSegments stream1_permuted (server1, Map.empty))
   \<and> replayContents (projr (recoverSegments stream1 (server1, Map.empty)))
       = replayContents (projr (recoverSegments stream1_permuted (server1, Map.empty)))"
proof -
  have nb: "notBoth (server1, Map.empty)" by (simp add: notBoth_def)
  have bm: "belowMax (server1, Map.empty)"
    by (auto simp: belowMax_def server1_def object5_def split: if_splits)
  have v: "entryVersion (LOG_ENTRY_TYPE_OBJ object9) \<noteq> Some (- 1)
           \<and> entryVersion (LOG_ENTRY_TYPE_OBJTOMB tombstone5) \<noteq> Some (- 1)
           \<and> entryVersion (LOG_ENTRY_TYPE_OBJTOMB tombstone9) \<noteq> Some (- 1)"
    by (simp add: entryVersion_def object9_def tombstone5_def tombstone9_def)
  then have vs: "\<forall>e \<in> set (concat (map snd stream1)). entryVersion e \<noteq> Some (- 1)"
    by (simp add: stream1_def)
  have one: "oneRecordPerVersion (concat (map snd stream1))"
    by (simp add: oneRecordPerVersion_def stream1_def isObject_def entryKey_def tombstone5_def
        tombstone9_def)
  have perm: "mset (concat (map snd stream1)) = mset (concat (map snd stream1_permuted))"
    by (simp add: stream1_def stream1_permuted_def)
  from replay_order_independent [OF nb bm vs one perm]
  have "\<not> isl (recoverSegments stream1 (server1, Map.empty))
        \<and> \<not> isl (recoverSegments stream1_permuted (server1, Map.empty))
        \<and> replayContents (projr (recoverSegments stream1 (server1, Map.empty)))
            = replayContents (projr (recoverSegments stream1_permuted (server1, Map.empty)))"
    by auto
  with nb bm v one perm show ?thesis by blast
qed

lemma recoverSegments_two:
  "recoverSegments [(a, [e1]), (b, [e2])] st =
     (case recoverEntry e1 st of Inl err \<Rightarrow> Inl err | Inr st' \<Rightarrow> recoverEntry e2 st')"
  by (simp split: sum.splits)

text \<open>
  Without the provisos the order matters. Two different objects of key (7, 2) with version
  9, in two segments: the one replayed first stays. An object of version \<open>2^64 - 1\<close> and
  one of version 9 for the same key: replayed in this order the object of version 9 ends up
  in the index (\<open>minSuccessor\<close> wraps to 0), in the other order the one of version
  \<open>2^64 - 1\<close>.
\<close>

theorem replay_order_counterexample:
  "mset (concat (map snd stream2)) = mset (concat (map snd stream2_permuted))
   \<and> \<not> isl (recoverSegments stream2 (server1, Map.empty))
   \<and> \<not> isl (recoverSegments stream2_permuted (server1, Map.empty))
   \<and> fst (replayContents (projr (recoverSegments stream2 (server1, Map.empty)))) (7, 2)
        = Some object9
   \<and> fst (replayContents (projr (recoverSegments stream2_permuted (server1, Map.empty)))) (7, 2)
        = Some object9b
   \<and> object9 \<noteq> object9b
   \<and> mset (concat (map snd stream3)) = mset (concat (map snd stream3_permuted))
   \<and> \<not> isl (recoverSegments stream3 (server1, Map.empty))
   \<and> \<not> isl (recoverSegments stream3_permuted (server1, Map.empty))
   \<and> fst (replayContents (projr (recoverSegments stream3 (server1, Map.empty)))) (7, 2)
        = Some object9
   \<and> fst (replayContents (projr (recoverSegments stream3_permuted (server1, Map.empty)))) (7, 2)
        = Some objectMax
   \<and> object9 \<noteq> objectMax"
  by (simp add: stream2_def stream2_permuted_def stream3_def stream3_permuted_def
        recoverSegments_two replayContents_def indexContents_def replay_defs
        server1_def object9_def object9b_def objectMax_def entrySize_def)

subsection \<open>A failed fetch during recovery\<close>

lemma chooser42:
  "SegmentLocatorChooser_ctor id backups42 =
     \<lparr>map_chooser = [(42, ''b1''), (42, ''b2'')], ids = [42]\<rparr>"
  by (simp add: SegmentLocatorChooser_ctor_def backups42_def multimap_insert_def)

text \<open>
  C5. The claim is that after a failed fetch the driver marks the locator down and asks the
  chooser for the next backup of the same segment, and fails only when the chooser has no
  locator left. Segment 42 is held by the backups at \<open>b1\<close> and \<open>b2\<close>; the fetch from
  \<open>b1\<close> fails with a transport error. The recovery fails with \<open>SegmentRecoveryFailed\<close>,
  nothing replayed, although the chooser, with \<open>b1\<close> marked down, still offers \<open>b2\<close>,
  which would answer.
\<close>

theorem recover_fails_on_first_error:
  "recover env42 id backups42 (server1, Map.empty)
     = Some (Inl (SegmentRecoveryFailed, (server1, Map.empty)))
   \<and> get 0 42 (markAsDown 42 ''b1'' (SegmentLocatorChooser_ctor id backups42)) = Inr ''b2''
   \<and> getRecoveryData env42 42 ''b2'' = RecoveryData []"
  apply (simp add: recover_def chooser42 getSegmentIdList_def constructTask_def get_def
      env42_def markAsDown_def)
  apply (subst recoverLoop.simps)
  apply (simp add: processTask_def)
  done


subsection \<open>Setting the tablets\<close>

lemma ucast_fit: "(x :: 64 word) < 2 ^ 32 \<Longrightarrow> ucast (ucast x :: 32 word) = x"
  by transfer (simp add: take_bit_eq_mod)

lemma map_of_Tables_set: "map_of (Tables_set k p m) = (map_of m)(k \<mapsto> p)"
  by (induction m) (auto simp: fun_eq_iff)

lemma Tables_get_set: "Tables_get (Tables_set k p m) kk = (if kk = k then p else Tables_get m kk)"
  by (simp add: Tables_get_def map_of_Tables_set)

lemma Tables_set_sorted:
  "sorted_wrt (<) (map fst m) \<Longrightarrow> sorted_wrt (<) (map fst (Tables_set k p m))"
proof (induction m)
  case Nil
  then show ?case by simp
next
  case (Cons e m)
  have sub: "\<And>x. x \<in> set (Tables_set k p m) \<Longrightarrow> fst x = k \<or> fst x \<in> fst ` set m"
    by (induction m) (auto split: if_splits)
  from Cons have IH: "sorted_wrt (<) (map fst (Tables_set k p m))"
    and hd: "\<forall>x \<in> set m. fst e < fst x" and tl: "sorted_wrt (<) (map fst m)"
    by auto
  show ?case
  proof (cases "k = fst e")
    case True
    with hd tl show ?thesis by simp
  next
    case False
    show ?thesis
    proof (cases "k < fst e")
      case True
      with hd tl show ?thesis by (auto intro: less_trans)
    next
      case ge: False
      with False have lt: "fst e < k" by simp
      have "\<forall>x \<in> set (Tables_set k p m). fst e < fst x"
      proof
        fix x assume "x \<in> set (Tables_set k p m)"
        from sub[OF this] show "fst e < fst x" using hd lt by auto
      qed
      with IH False ge show ?thesis by simp
    qed
  qed
qed

lemma oldTables_sorted:
  "sorted_wrt (<) (map fst m) \<Longrightarrow> sorted_wrt (<) (map fst (oldTables ts m))"
  by (induction ts arbitrary: m) (auto simp: Tables_set_sorted)

lemma oldTables_other:
  "k \<notin> (\<lambda>t. ucast (table_id t)) ` set ts \<Longrightarrow> map_of (oldTables ts m) k = map_of m k"
  by (induction ts arbitrary: m) (auto simp: map_of_Tables_set)

lemma oldTables_entry:
  assumes "t \<in> set ts"
    and "\<forall>a \<in> set ts. (ucast (table_id a) :: u32) = ucast (table_id t) \<longrightarrow> user_data a = user_data t"
  shows "map_of (oldTables ts m) (ucast (table_id t)) = Some (user_data t)"
  using assms
proof (induction ts arbitrary: m t)
  case Nil
  then show ?case by simp
next
  case (Cons a ts)
  let ?k = "ucast (table_id t) :: u32"
  show ?case
  proof (cases "?k \<in> (\<lambda>t. ucast (table_id t)) ` set ts")
    case True
    then obtain b where b: "b \<in> set ts" "(ucast (table_id b) :: u32) = ?k" by auto
    with Cons.prems(2) have ub: "user_data b = user_data t" by simp
    have "\<forall>a \<in> set ts. (ucast (table_id a) :: u32) = ucast (table_id b) \<longrightarrow> user_data a = user_data b"
      using Cons.prems(2) b ub by simp
    from Cons.IH[OF b(1) this] b(2) ub show ?thesis by simp
  next
    case False
    with Cons.prems(1) have ta: "t = a" by auto
    from False show ?thesis
      by (simp add: oldTables_other map_of_Tables_set ta)
  qed
qed

lemma deleteTables_heap:
  "deleteTables m new h q =
     (if q \<noteq> 0 \<and> (\<exists>e \<in> set m. snd e = q \<and> \<not> (\<exists>nt \<in> set new. ucast (fst e) = table_id nt))
      then None else h q)"
proof (induction m arbitrary: h)
  case Nil
  then show ?case by simp
next
  case (Cons e m)
  show ?case
  proof (cases "\<exists>nt \<in> set new. ucast (fst e) = table_id nt")
    case True
    then have "deleteTables (e # m) new h q = deleteTables m new h q" by simp
    with True Cons[of h] show ?thesis by auto
  next
    case False
    then have d: "deleteTables (e # m) new h q = deleteTables m new (delete_Table (snd e) h) q"
      by simp
    show ?thesis
      unfolding d Cons[of "delete_Table (snd e) h"] using False
      by (auto simp: delete_Table_def)
  qed
qed


lemma assignTables_shape:
  "map (\<lambda>t. t\<lparr>user_data := 0\<rparr>) (fst (assignTables ts st)) = map (\<lambda>t. t\<lparr>user_data := 0\<rparr>) ts"
  by (induction ts arbitrary: st) (auto simp: Let_def split: prod.splits)

lemma assignTables_step:
  assumes "assignTables (a # rest) (m, h, n) = (ts', m', h', n')"
  shows "(Tables_get m (ucast (table_id a)) \<noteq> 0 \<and>
           (\<exists>rest'. ts' = a\<lparr>user_data := Tables_get m (ucast (table_id a))\<rparr> # rest' \<and>
              assignTables rest (m, h, n) = (rest', m', h', n')))
       \<or> (Tables_get m (ucast (table_id a)) = 0 \<and>
           (\<exists>rest'. ts' = a\<lparr>user_data := n\<rparr> # rest' \<and>
              assignTables rest (Tables_set (ucast (table_id a)) n m,
                 h(n \<mapsto> Table_ctor (table_id a)), Suc n) = (rest', m', h', n')))"
proof (cases "Tables_get m (ucast (table_id a)) = 0")
  case True
  with assms show ?thesis
    by (cases "assignTables rest (Tables_set (ucast (table_id a)) n m,
                 h(n \<mapsto> Table_ctor (table_id a)), Suc n)") (simp add: Let_def)
next
  case False
  with assms show ?thesis
    by (cases "assignTables rest (m, h, n)") (simp add: Let_def)
qed

lemma assignTables_props:
  assumes "assignTables ts (m, h, n) = (ts', m', h', n')" "0 < n" "\<forall>k. Tables_get m k < n"
  shows "n \<le> n' \<and> (\<forall>k. Tables_get m' k < n')
     \<and> (\<forall>q. q < n \<longrightarrow> h' q = h q) \<and> (\<forall>q. n' \<le> q \<longrightarrow> h' q = h q)
     \<and> (\<forall>k. Tables_get m k \<noteq> 0 \<longrightarrow> Tables_get m' k = Tables_get m k)
     \<and> (\<forall>t' \<in> set ts'. user_data t' = Tables_get m' (ucast (table_id t')) \<and> user_data t' \<noteq> 0)
     \<and> (\<forall>k. Tables_get m k = 0 \<and> Tables_get m' k \<noteq> 0 \<longrightarrow>
            n \<le> Tables_get m' k \<and>
            (idsFit ts \<longrightarrow> h' (Tables_get m' k) = Some (Table_ctor (ucast k))))
     \<and> (\<forall>k1 k2. Tables_get m k1 = 0 \<and> Tables_get m k2 = 0 \<and> Tables_get m' k1 \<noteq> 0 \<and>
            Tables_get m' k1 = Tables_get m' k2 \<longrightarrow> k1 = k2)"
  using assms
proof (induction ts arbitrary: m h n ts' m' h' n')
  case Nil
  then show ?case by auto
next
  case (Cons a rest)
  let ?k = "ucast (table_id a) :: u32"
  have fit: "idsFit (a # rest) \<Longrightarrow> idsFit rest"
    and ida: "idsFit (a # rest) \<Longrightarrow> ucast ?k = table_id a"
    by (auto simp: idsFit_def ucast_fit)
  from assignTables_step[OF Cons.prems(1)]
  consider (old) rest' where "Tables_get m ?k \<noteq> 0"
        "ts' = a\<lparr>user_data := Tables_get m ?k\<rparr> # rest'"
        "assignTables rest (m, h, n) = (rest', m', h', n')"
    | (new) rest' where "Tables_get m ?k = 0" "ts' = a\<lparr>user_data := n\<rparr> # rest'"
        "assignTables rest (Tables_set ?k n m, h(n \<mapsto> Table_ctor (table_id a)), Suc n)
           = (rest', m', h', n')"
    by blast
  then show ?case
  proof cases
    case old
    from Cons.IH[OF old(3) Cons.prems(2,3)] have IH:
      "n \<le> n'" "\<forall>k. Tables_get m' k < n'"
      "\<forall>q. q < n \<longrightarrow> h' q = h q" "\<forall>q. n' \<le> q \<longrightarrow> h' q = h q"
      "\<forall>k. Tables_get m k \<noteq> 0 \<longrightarrow> Tables_get m' k = Tables_get m k"
      "\<forall>t' \<in> set rest'. user_data t' = Tables_get m' (ucast (table_id t')) \<and> user_data t' \<noteq> 0"
      "\<forall>k. Tables_get m k = 0 \<and> Tables_get m' k \<noteq> 0 \<longrightarrow>
            n \<le> Tables_get m' k \<and>
            (idsFit rest \<longrightarrow> h' (Tables_get m' k) = Some (Table_ctor (ucast k)))"
      "\<forall>k1 k2. Tables_get m k1 = 0 \<and> Tables_get m k2 = 0 \<and> Tables_get m' k1 \<noteq> 0 \<and>
            Tables_get m' k1 = Tables_get m' k2 \<longrightarrow> k1 = k2"
      by blast+
    have a7: "\<forall>k. Tables_get m k = 0 \<and> Tables_get m' k \<noteq> 0 \<longrightarrow>
            n \<le> Tables_get m' k \<and>
            (idsFit (a # rest) \<longrightarrow> h' (Tables_get m' k) = Some (Table_ctor (ucast k)))"
      using IH(7) fit by blast
    have a6: "\<forall>t' \<in> set ts'. user_data t' = Tables_get m' (ucast (table_id t')) \<and> user_data t' \<noteq> 0"
      using IH(5,6) old(1,2) by auto
    from IH(1-5) a6 a7 IH(8) show ?thesis by blast
  next
    case new
    let ?m1 = "Tables_set ?k n m" and ?h1 = "h(n \<mapsto> Table_ctor (table_id a))"
    have g1: "\<And>kk. Tables_get ?m1 kk = (if kk = ?k then n else Tables_get m kk)"
      by (simp add: Tables_get_set)
    have p1: "0 < Suc n" by simp
    have p2: "\<forall>k. Tables_get ?m1 k < Suc n"
      using Cons.prems(3) by (auto simp: g1 less_Suc_eq)
    from Cons.IH[OF new(3) p1 p2] have IH:
      "Suc n \<le> n'" "\<forall>k. Tables_get m' k < n'"
      "\<forall>q. q < Suc n \<longrightarrow> h' q = ?h1 q" "\<forall>q. n' \<le> q \<longrightarrow> h' q = ?h1 q"
      "\<forall>k. Tables_get ?m1 k \<noteq> 0 \<longrightarrow> Tables_get m' k = Tables_get ?m1 k"
      "\<forall>t' \<in> set rest'. user_data t' = Tables_get m' (ucast (table_id t')) \<and> user_data t' \<noteq> 0"
      "\<forall>k. Tables_get ?m1 k = 0 \<and> Tables_get m' k \<noteq> 0 \<longrightarrow>
            Suc n \<le> Tables_get m' k \<and>
            (idsFit rest \<longrightarrow> h' (Tables_get m' k) = Some (Table_ctor (ucast k)))"
      "\<forall>k1 k2. Tables_get ?m1 k1 = 0 \<and> Tables_get ?m1 k2 = 0 \<and> Tables_get m' k1 \<noteq> 0 \<and>
            Tables_get m' k1 = Tables_get m' k2 \<longrightarrow> k1 = k2"
      by blast+
    have mk: "Tables_get m' ?k = n"
      using IH(5)[rule_format, of ?k] Cons.prems(2) by (simp add: g1)
    have c1: "n \<le> n'" using IH(1) by simp
    have c3: "\<forall>q. q < n \<longrightarrow> h' q = h q"
      using IH(3) by auto
    have c4: "\<forall>q. n' \<le> q \<longrightarrow> h' q = h q"
      using IH(4) IH(1) by auto
    have c5: "\<forall>k. Tables_get m k \<noteq> 0 \<longrightarrow> Tables_get m' k = Tables_get m k"
    proof (intro allI impI)
      fix kk assume nz: "Tables_get m kk \<noteq> 0"
      with new(1) have "kk \<noteq> ?k" by auto
      with nz IH(5)[rule_format, of kk] show "Tables_get m' kk = Tables_get m kk"
        by (simp add: g1)
    qed
    have c6: "\<forall>t' \<in> set ts'. user_data t' = Tables_get m' (ucast (table_id t')) \<and> user_data t' \<noteq> 0"
      using IH(6) new(2) mk Cons.prems(2) by auto
    have hn: "h' n = Some (Table_ctor (table_id a))"
      using IH(3)[rule_format, of n] by simp
    have c7: "\<forall>k. Tables_get m k = 0 \<and> Tables_get m' k \<noteq> 0 \<longrightarrow>
            n \<le> Tables_get m' k \<and>
            (idsFit (a # rest) \<longrightarrow> h' (Tables_get m' k) = Some (Table_ctor (ucast k)))"
    proof (intro allI impI)
      fix kk assume h: "Tables_get m kk = 0 \<and> Tables_get m' kk \<noteq> 0"
      show "n \<le> Tables_get m' kk \<and>
            (idsFit (a # rest) \<longrightarrow> h' (Tables_get m' kk) = Some (Table_ctor (ucast kk)))"
      proof (cases "kk = ?k")
        case True
        with mk hn ida show ?thesis by simp
      next
        case False
        with h have "Tables_get ?m1 kk = 0 \<and> Tables_get m' kk \<noteq> 0" by (simp add: g1)
        with IH(7) have "Suc n \<le> Tables_get m' kk \<and>
            (idsFit rest \<longrightarrow> h' (Tables_get m' kk) = Some (Table_ctor (ucast kk)))"
          by blast
        with fit show ?thesis by auto
      qed
    qed
    have c8: "\<forall>k1 k2. Tables_get m k1 = 0 \<and> Tables_get m k2 = 0 \<and> Tables_get m' k1 \<noteq> 0 \<and>
            Tables_get m' k1 = Tables_get m' k2 \<longrightarrow> k1 = k2"
    proof (intro allI impI)
      fix k1 k2
      assume h: "Tables_get m k1 = 0 \<and> Tables_get m k2 = 0 \<and> Tables_get m' k1 \<noteq> 0 \<and>
            Tables_get m' k1 = Tables_get m' k2"
      have far: "\<And>kk. kk \<noteq> ?k \<Longrightarrow> Tables_get m kk = 0 \<Longrightarrow> Tables_get m' kk \<noteq> 0 \<Longrightarrow>
          Suc n \<le> Tables_get m' kk"
        using IH(7) by (simp add: g1)
      show "k1 = k2"
      proof (cases "k1 = ?k")
        case True
        show ?thesis
        proof (rule ccontr)
          assume "k1 \<noteq> k2"
          with True have "k2 \<noteq> ?k" by simp
          from far[OF this] h have "Suc n \<le> Tables_get m' k2" by simp
          with h True mk show False by simp
        qed
      next
        case False
        show ?thesis
        proof (cases "k2 = ?k")
          case True
          from far[OF False] h have "Suc n \<le> Tables_get m' k1" by simp
          with h True mk show ?thesis by simp
        next
          case k2: False
          with False h IH(8)[rule_format, of k1 k2] show ?thesis by (simp add: g1)
        qed
      qed
    qed
    from c1 IH(2) c3 c4 c5 c6 c7 c8 show ?thesis by blast
  qed
qed


lemma assignTables_ids:
  "map table_id (fst (assignTables ts st)) = map table_id ts"
  by (induction ts arbitrary: st) (auto simp: Let_def split: prod.splits)

lemma deleteTables_subset: "deleteTables m new h q \<noteq> None \<Longrightarrow> h q \<noteq> None"
  by (simp add: deleteTables_heap split: if_splits)

text \<open>
  Where the table ids fit the 32-bit key of the table map, \<open>setTablets\<close> does what its
  comments say. Let the state be well formed (every active tablet points to a live table,
  and two active tablets point to the same table exactly when their table ids are equal),
  and let the table ids of the active and of the new tablets be below \<open>2^32\<close>. Then after
  \<open>setTablets\<close> the active tablets are the new ones with their \<open>user_data\<close> set; a table
  id present in the old and in the new set keeps its table, unchanged, with its version
  floor and key counter; the table of a table id present in the old set only is deleted; a
  table id present in the new set only gets a fresh table; every active tablet points to the
  one live table of its table id (the state is well formed again); and the object index and
  the log are as before.
\<close>

lemma setTablets_tables_fit:
  assumes wf: "tablesWF s" and fitO: "idsFit (tablets s)" and fitN: "idsFit newTablets"
  shows "map (\<lambda>t. t\<lparr>user_data := 0\<rparr>) (tablets (setTablets newTablets s))
           = map (\<lambda>t. t\<lparr>user_data := 0\<rparr>) newTablets
    \<and> (\<forall>old \<in> set (tablets s). \<forall>new \<in> set (tablets (setTablets newTablets s)).
          table_id new = table_id old \<longrightarrow>
            user_data new = user_data old \<and>
            tableHeap (setTablets newTablets s) (user_data old) = tableHeap s (user_data old))
    \<and> (\<forall>old \<in> set (tablets s). table_id old \<notin> table_id ` set newTablets \<longrightarrow>
          tableHeap (setTablets newTablets s) (user_data old) = None)
    \<and> (\<forall>new \<in> set (tablets (setTablets newTablets s)).
          table_id new \<notin> table_id ` set (tablets s) \<longrightarrow>
            tableHeap s (user_data new) = None \<and>
            tableHeap (setTablets newTablets s) (user_data new)
              = Some (Table_ctor (table_id new)))
    \<and> tablesWF (setTablets newTablets s)
    \<and> objectMap (setTablets newTablets s) = objectMap s
    \<and> log (setTablets newTablets s) = log s"
proof -
  let ?key = "\<lambda>t. ucast (table_id t) :: u32"
  let ?m = "oldTables (tablets s) []"
  let ?h = "deleteTables ?m newTablets (tableHeap s)"
  let ?n = "tableNext s"
  obtain ts' m' h' n' where res: "assignTables newTablets (?m, ?h, ?n) = (ts', m', h', n')"
    by (metis prod_cases4)
  have s': "tablets (setTablets newTablets s) = ts'" "tableHeap (setTablets newTablets s) = h'"
    "tableNext (setTablets newTablets s) = n'"
    using res by (simp_all add: setTablets_def Let_def)
  have W1: "\<And>t. t \<in> set (tablets s) \<Longrightarrow> user_data t \<noteq> 0 \<and> tableHeap s (user_data t) \<noteq> None"
    and W2: "\<And>a b. a \<in> set (tablets s) \<Longrightarrow> b \<in> set (tablets s) \<Longrightarrow>
               (table_id a = table_id b) = (user_data a = user_data b)"
    and W3: "\<And>p. tableHeap s p \<noteq> None \<Longrightarrow> p < ?n" and W4: "0 < ?n"
    using wf unfolding tablesWF_def by blast+
  have fo: "\<And>t. t \<in> set (tablets s) \<Longrightarrow> ucast (?key t) = table_id t"
    using fitO by (simp add: idsFit_def ucast_fit)
  have fn: "\<And>t. t \<in> set newTablets \<Longrightarrow> ucast (?key t) = table_id t"
    using fitN by (simp add: idsFit_def ucast_fit)
  have ids: "map table_id ts' = map table_id newTablets"
    using assignTables_ids[of newTablets "(?m, ?h, ?n)"] res by simp
  have ids_set: "table_id ` set ts' = table_id ` set newTablets"
    using ids by (metis list.set_map)
  have fn': "\<And>t. t \<in> set ts' \<Longrightarrow> ucast (?key t) = table_id t"
  proof -
    fix t assume "t \<in> set ts'"
    then have "table_id t \<in> table_id ` set newTablets" using ids_set by blast
    then obtain u where "u \<in> set newTablets" "table_id u = table_id t" by auto
    with fn[of u] show "ucast (?key t) = table_id t" by metis
  qed
  have F1: "\<And>old. old \<in> set (tablets s) \<Longrightarrow> map_of ?m (?key old) = Some (user_data old)"
  proof -
    fix old assume o: "old \<in> set (tablets s)"
    have "\<forall>a \<in> set (tablets s). ?key a = ?key old \<longrightarrow> user_data a = user_data old"
    proof (intro ballI impI)
      fix a assume a: "a \<in> set (tablets s)" "?key a = ?key old"
      then have "table_id a = table_id old" using fo[OF a(1)] fo[OF o] by metis
      with W2[OF a(1) o] show "user_data a = user_data old" by simp
    qed
    with o show "map_of ?m (?key old) = Some (user_data old)" by (rule oldTables_entry)
  qed
  have F1g: "\<And>old. old \<in> set (tablets s) \<Longrightarrow> Tables_get ?m (?key old) = user_data old"
    using F1 by (simp add: Tables_get_def)
  have F2: "\<And>k. k \<notin> ?key ` set (tablets s) \<Longrightarrow> Tables_get ?m k = 0"
    by (simp add: Tables_get_def oldTables_other)
  have F2': "\<And>k. Tables_get ?m k \<noteq> 0 \<Longrightarrow> \<exists>old \<in> set (tablets s). ?key old = k"
  proof (rule ccontr)
    fix k assume nz: "Tables_get ?m k \<noteq> 0"
      and "\<not> (\<exists>old \<in> set (tablets s). ?key old = k)"
    then have "k \<notin> ?key ` set (tablets s)" by auto
    from F2[OF this] nz show False by simp
  qed
  have F3: "\<forall>k. Tables_get ?m k < ?n"
  proof
    fix k show "Tables_get ?m k < ?n"
    proof (cases "k \<in> ?key ` set (tablets s)")
      case True
      then obtain old where o: "old \<in> set (tablets s)" "?key old = k" by auto
      with F1g[OF o(1)] W1[OF o(1)] W3 show ?thesis by auto
    next
      case False
      with F2 W4 show ?thesis by simp
    qed
  qed
  have dist: "distinct (map fst ?m)"
  proof -
    have "sorted_wrt (<) (map fst ?m)" by (rule oldTables_sorted) simp
    then show ?thesis by (simp add: strict_sorted_iff)
  qed
  have F4: "\<And>e. e \<in> set ?m \<Longrightarrow> \<exists>old \<in> set (tablets s). fst e = ?key old \<and> snd e = user_data old"
  proof -
    fix e assume "e \<in> set ?m"
    then have me: "map_of ?m (fst e) = Some (snd e)" using dist by simp
    then have "fst e \<in> ?key ` set (tablets s)"
      using oldTables_other[of "fst e" "tablets s" "[]"] by auto
    then obtain old where o: "old \<in> set (tablets s)" "?key old = fst e" by auto
    with F1[OF o(1)] me have "fst e = ?key old \<and> snd e = user_data old" by simp
    with o(1) show "\<exists>old \<in> set (tablets s). fst e = ?key old \<and> snd e = user_data old"
      by blast
  qed
  have F4': "\<And>old. old \<in> set (tablets s) \<Longrightarrow> (?key old, user_data old) \<in> set ?m"
    using F1 by (simp add: map_of_SomeD)
  have F5keep: "\<And>old. old \<in> set (tablets s) \<Longrightarrow> table_id old \<in> table_id ` set newTablets \<Longrightarrow>
      ?h (user_data old) = tableHeap s (user_data old)"
  proof -
    fix old assume o: "old \<in> set (tablets s)" "table_id old \<in> table_id ` set newTablets"
    have "\<not> (\<exists>e \<in> set ?m. snd e = user_data old \<and>
              \<not> (\<exists>nt \<in> set newTablets. ucast (fst e) = table_id nt))"
    proof
      assume "\<exists>e \<in> set ?m. snd e = user_data old \<and>
              \<not> (\<exists>nt \<in> set newTablets. ucast (fst e) = table_id nt)"
      then obtain e where e: "e \<in> set ?m" "snd e = user_data old"
        "\<not> (\<exists>nt \<in> set newTablets. ucast (fst e) = table_id nt)" by blast
      from F4[OF e(1)] obtain o2 where o2: "o2 \<in> set (tablets s)" "fst e = ?key o2"
        "snd e = user_data o2" by blast
      with e(2) W2[OF o2(1) o(1)] have "table_id o2 = table_id old" by simp
      with fo[OF o2(1)] o2(2) have "ucast (fst e) = table_id old" by metis
      with o(2) e(3) show False by auto
    qed
    then have "\<not> (user_data old \<noteq> 0 \<and> (\<exists>e \<in> set ?m. snd e = user_data old \<and>
              \<not> (\<exists>nt \<in> set newTablets. ucast (fst e) = table_id nt)))" by blast
    then show "?h (user_data old) = tableHeap s (user_data old)"
      unfolding deleteTables_heap by (rule if_not_P)
  qed
  have F5del: "\<And>old. old \<in> set (tablets s) \<Longrightarrow> table_id old \<notin> table_id ` set newTablets \<Longrightarrow>
      ?h (user_data old) = None"
  proof -
    fix old assume o: "old \<in> set (tablets s)" "table_id old \<notin> table_id ` set newTablets"
    have "\<not> (\<exists>nt \<in> set newTablets. ucast (?key old) = table_id nt)"
      using o(2) fo[OF o(1)] by auto
    with F4'[OF o(1)] have "\<exists>e \<in> set ?m. snd e = user_data old \<and>
              \<not> (\<exists>nt \<in> set newTablets. ucast (fst e) = table_id nt)"
      by force
    with W1[OF o(1)] have "user_data old \<noteq> 0 \<and> (\<exists>e \<in> set ?m. snd e = user_data old \<and>
              \<not> (\<exists>nt \<in> set newTablets. ucast (fst e) = table_id nt))" by blast
    then show "?h (user_data old) = None"
      unfolding deleteTables_heap by (rule if_P)
  qed
  from assignTables_props[OF res W4 F3] fitN have
    C2: "?n \<le> n'" and C4: "\<forall>k. Tables_get m' k < n'"
    and C3: "\<forall>q. q < ?n \<longrightarrow> h' q = ?h q" and C9: "\<forall>q. n' \<le> q \<longrightarrow> h' q = ?h q"
    and C5: "\<forall>k. Tables_get ?m k \<noteq> 0 \<longrightarrow> Tables_get m' k = Tables_get ?m k"
    and C6: "\<forall>t' \<in> set ts'. user_data t' = Tables_get m' (?key t') \<and> user_data t' \<noteq> 0"
    and C7: "\<forall>k. Tables_get ?m k = 0 \<and> Tables_get m' k \<noteq> 0 \<longrightarrow>
            ?n \<le> Tables_get m' k \<and> h' (Tables_get m' k) = Some (Table_ctor (ucast k))"
    and C8: "\<forall>k1 k2. Tables_get ?m k1 = 0 \<and> Tables_get ?m k2 = 0 \<and> Tables_get m' k1 \<noteq> 0 \<and>
            Tables_get m' k1 = Tables_get m' k2 \<longrightarrow> k1 = k2"
    by blast+
  have below: "\<And>old. old \<in> set (tablets s) \<Longrightarrow> user_data old < ?n"
    using W1 W3 by blast
  have A: "map (\<lambda>t. t\<lparr>user_data := 0\<rparr>) ts' = map (\<lambda>t. t\<lparr>user_data := 0\<rparr>) newTablets"
    using assignTables_shape[of newTablets "(?m, ?h, ?n)"] res by simp
  have B: "\<And>old new. old \<in> set (tablets s) \<Longrightarrow> new \<in> set ts' \<Longrightarrow>
      table_id new = table_id old \<Longrightarrow>
      user_data new = user_data old \<and> h' (user_data old) = tableHeap s (user_data old)"
  proof -
    fix old new assume o: "old \<in> set (tablets s)" and n: "new \<in> set ts'"
      and eq: "table_id new = table_id old"
    have k: "?key new = ?key old" using eq by simp
    have "Tables_get m' (?key old) = user_data old"
      using C5 F1g[OF o] W1[OF o] by simp
    with C6 n k have u: "user_data new = user_data old" by simp
    have "table_id new \<in> table_id ` set ts'" using n by (rule imageI)
    then have "table_id old \<in> table_id ` set newTablets" unfolding ids_set eq .
    from F5keep[OF o this] C3 below[OF o]
    have "h' (user_data old) = tableHeap s (user_data old)" by simp
    with u show "user_data new = user_data old \<and> h' (user_data old) = tableHeap s (user_data old)"
      by simp
  qed
  have C: "\<And>old. old \<in> set (tablets s) \<Longrightarrow> table_id old \<notin> table_id ` set newTablets \<Longrightarrow>
      h' (user_data old) = None"
    using F5del C3 below by simp
  have fresh: "\<And>new. new \<in> set ts' \<Longrightarrow> Tables_get ?m (?key new) = 0 \<Longrightarrow>
      ?n \<le> user_data new \<and> h' (user_data new) = Some (Table_ctor (table_id new))"
  proof -
    fix new assume n: "new \<in> set ts'" and z: "Tables_get ?m (?key new) = 0"
    from C6 n have u: "user_data new = Tables_get m' (?key new)" "user_data new \<noteq> 0" by auto
    with C7 z fn'[OF n] show "?n \<le> user_data new \<and>
        h' (user_data new) = Some (Table_ctor (table_id new))" by force
  qed
  have D: "\<And>new. new \<in> set ts' \<Longrightarrow> table_id new \<notin> table_id ` set (tablets s) \<Longrightarrow>
      tableHeap s (user_data new) = None \<and> h' (user_data new) = Some (Table_ctor (table_id new))"
  proof -
    fix new assume n: "new \<in> set ts'" and nin: "table_id new \<notin> table_id ` set (tablets s)"
    have "?key new \<notin> ?key ` set (tablets s)"
    proof
      assume "?key new \<in> ?key ` set (tablets s)"
      then obtain old where o: "old \<in> set (tablets s)" "?key old = ?key new" by auto
      with fo[OF o(1)] fn'[OF n] have "table_id old = table_id new" by metis
      with nin o(1) show False by (metis imageI)
    qed
    then have "Tables_get ?m (?key new) = 0" by (rule F2)
    from fresh[OF n this] W3[of "user_data new"] show
      "tableHeap s (user_data new) = None \<and> h' (user_data new) = Some (Table_ctor (table_id new))"
      by force
  qed
  have oldcase: "\<And>new. new \<in> set ts' \<Longrightarrow> Tables_get ?m (?key new) \<noteq> 0 \<Longrightarrow>
      \<exists>old \<in> set (tablets s). table_id old = table_id new \<and> user_data new = user_data old"
  proof -
    fix new assume n: "new \<in> set ts'" and nz: "Tables_get ?m (?key new) \<noteq> 0"
    from F2'[OF nz] obtain old where o: "old \<in> set (tablets s)" "?key old = ?key new" by blast
    with fo[OF o(1)] fn'[OF n] have "table_id new = table_id old" by metis
    with B[OF o(1) n] o(1) show
      "\<exists>old \<in> set (tablets s). table_id old = table_id new \<and> user_data new = user_data old"
      by auto
  qed
  have live: "\<And>new. new \<in> set ts' \<Longrightarrow> user_data new \<noteq> 0 \<and> h' (user_data new) \<noteq> None"
  proof -
    fix new assume n: "new \<in> set ts'"
    show "user_data new \<noteq> 0 \<and> h' (user_data new) \<noteq> None"
    proof (cases "Tables_get ?m (?key new) = 0")
      case True
      from fresh[OF n True] C6 n show ?thesis by auto
    next
      case False
      from oldcase[OF n False] obtain old where o: "old \<in> set (tablets s)"
        "table_id old = table_id new" "user_data new = user_data old" by blast
      with B[OF o(1) n] W1[OF o(1)] C6 n show ?thesis by auto
    qed
  qed
  have single: "\<And>a b. a \<in> set ts' \<Longrightarrow> b \<in> set ts' \<Longrightarrow>
      (table_id a = table_id b) = (user_data a = user_data b)"
  proof -
    fix a b assume a: "a \<in> set ts'" and b: "b \<in> set ts'"
    show "(table_id a = table_id b) = (user_data a = user_data b)"
    proof
      assume "table_id a = table_id b"
      then have "?key a = ?key b" by simp
      with C6 a b show "user_data a = user_data b" by simp
    next
      assume u: "user_data a = user_data b"
      show "table_id a = table_id b"
      proof (cases "Tables_get ?m (?key a) = 0")
        case az: True
        show ?thesis
        proof (cases "Tables_get ?m (?key b) = 0")
          case True
          have "Tables_get m' (?key a) \<noteq> 0 \<and> Tables_get m' (?key a) = Tables_get m' (?key b)"
            using C6 a b u by auto
          with C8 az True have "?key a = ?key b" by blast
          with fn'[OF a] fn'[OF b] show ?thesis by metis
        next
          case False
          from oldcase[OF b False] obtain old where o: "old \<in> set (tablets s)"
            "user_data b = user_data old" by blast
          with below[OF o(1)] fresh[OF a az] u show ?thesis by simp
        qed
      next
        case anz: False
        from oldcase[OF a anz] obtain oa where oa: "oa \<in> set (tablets s)"
          "table_id oa = table_id a" "user_data a = user_data oa" by blast
        show ?thesis
        proof (cases "Tables_get ?m (?key b) = 0")
          case True
          with below[OF oa(1)] fresh[OF b True] u oa(3) show ?thesis by simp
        next
          case False
          from oldcase[OF b False] obtain ob where ob: "ob \<in> set (tablets s)"
            "table_id ob = table_id b" "user_data b = user_data ob" by blast
          with W2[OF oa(1) ob(1)] oa u show ?thesis by simp
        qed
      qed
    qed
  qed
  have heapbound: "\<And>p. h' p \<noteq> None \<Longrightarrow> p < n'"
  proof (rule ccontr)
    fix p assume hp: "h' p \<noteq> None" and "\<not> p < n'"
    then have ge: "n' \<le> p" by simp
    with C9 hp have "?h p \<noteq> None" by simp
    then have "tableHeap s p \<noteq> None" by (rule deleteTables_subset)
    from W3[OF this] C2 ge show False by simp
  qed
  have WF': "tablesWF (setTablets newTablets s)"
    unfolding tablesWF_def s' using live single heapbound W4 C2 by auto
  have frame: "objectMap (setTablets newTablets s) = objectMap s \<and>
      log (setTablets newTablets s) = log s"
    by (simp add: setTablets_def Let_def)
  have "map (\<lambda>t. t\<lparr>user_data := 0\<rparr>) ts' = map (\<lambda>t. t\<lparr>user_data := 0\<rparr>) newTablets
    \<and> (\<forall>old \<in> set (tablets s). \<forall>new \<in> set ts'.
          table_id new = table_id old \<longrightarrow>
            user_data new = user_data old \<and> h' (user_data old) = tableHeap s (user_data old))
    \<and> (\<forall>old \<in> set (tablets s). table_id old \<notin> table_id ` set newTablets \<longrightarrow>
          h' (user_data old) = None)
    \<and> (\<forall>new \<in> set ts'.
          table_id new \<notin> table_id ` set (tablets s) \<longrightarrow>
            tableHeap s (user_data new) = None \<and>
            h' (user_data new) = Some (Table_ctor (table_id new)))"
    using A B C D by blast
  with WF' frame show ?thesis
    unfolding s' by blast
qed

lemmas tablets_defs = setTablets_def delete_Table_def Tables_get_def Table_ctor_def
  MasterServer_ctor_def Let_def

text \<open>
  C10. The claim is that a table id present in the old and in the new set of tablets keeps
  its table, and that afterwards every active tablet points to the table of its table id.
  The map from table ids to tables that \<open>setTablets\<close> builds has 32-bit keys, the table id
  of a tablet has 64 bits. A server fresh from its constructor is given a tablet of table
  \<open>2^32 + 1\<close>, twice. The second call files the table under key 1, finds no new tablet with
  table id 1 and deletes the table, although its table id is in the old and in the new set;
  the tablet then gets the pointer filed under key 1, which points to the deleted table.
  When a tablet of table 1 is set next, it gets the same pointer, and a write to table 1
  calls \<open>AllocateVersion\<close> through it.
\<close>

theorem setTablets_deletes_kept_table:
  "tablets (setTablets [tabletBig] (MasterServer_ctor 1024)) = [tabletBig\<lparr>user_data := 1\<rparr>]
   \<and> tableHeap (setTablets [tabletBig] (MasterServer_ctor 1024)) 1
        = Some (Table_ctor 4294967297)
   \<and> tablets (setTablets [tabletBig] (setTablets [tabletBig] (MasterServer_ctor 1024)))
        = [tabletBig\<lparr>user_data := 1\<rparr>]
   \<and> tableHeap (setTablets [tabletBig] (setTablets [tabletBig] (MasterServer_ctor 1024))) 1
        = None
   \<and> tablets (setTablets [tabletOne]
        (setTablets [tabletBig] (setTablets [tabletBig] (MasterServer_ctor 1024))))
        = [tabletOne\<lparr>user_data := 1\<rparr>]
   \<and> fst (storeData 0 1 1 noRules [] 0 0 (setTablets [tabletOne]
        (setTablets [tabletBig] (setTablets [tabletBig] (MasterServer_ctor 1024)))))
        = Inl InvalidTablePointer"
  by (simp add: tablets_defs tabletBig_def tabletOne_def storeData_def getTable_def
      rejectOperation_def noRules_def AllocateVersion_def)

subsection \<open>The version of a written object\<close>


lemma pointersWF_ctor: "pointersWF (MasterServer_ctor segBytes)"
  by (simp add: pointersWF_def MasterServer_ctor_def)














lemma getTable_tablets: "tablets s' = tablets s \<Longrightarrow> getTable a b s' = getTable a b s"
  by (simp add: getTable_def)






































end
